theory Spec2Isabelle
  imports Main
begin

section \<open>The value graph\<close>

text \<open>
  The analysis of \<^verbatim>\<open>AffineInstructionSet.cpp\<close> reads an LLVM value graph through
  \<^verbatim>\<open>llvm::Value*\<close> pointers and keeps four \<^verbatim>\<open>std::set\<close> containers of value pointers, keyed
  by pointer identity. An acyclic value graph is represented by finite terms: every
  instruction node carries the identity of the node (a number standing for its address)
  together with its operands, so two terms are equal exactly when they are the same
  node. Constants are uniqued by LLVM, so a constant is identified by its contents.
  Only the node kinds that the source tells apart with \<^verbatim>\<open>dyn_cast\<close> are distinguished.
\<close>

datatype opcode = Add | Sub | Mul | Shl | OtherBinary nat

text \<open>
  The classification of a \<^verbatim>\<open>CastInst\<close> that \<^verbatim>\<open>_walk\<close> asks for:
  \<^verbatim>\<open>cast->isIntegerCast()\<close>, \<^verbatim>\<open>PtrToIntInst::classof\<close>, \<^verbatim>\<open>IntToPtrInst::classof\<close>.
  \<open>IntegerCast\<close> stands for the casts on which LLVM's \<^verbatim>\<open>isIntegerCast\<close> answers true.
\<close>

datatype castKind = IntegerCast | PtrToInt | IntToPtr | OtherCast

datatype val =
    ConstantInt nat nat
  | ConstantOther nat
  | GlobalVariable nat
  | Argument nat
  | Cast nat castKind val
  | Load nat val
  | UnaryOther nat val
  | Binary nat opcode val val
  | Other nat

text \<open>
  \<open>ConstantInt w n\<close> is the integer constant of bit width \<open>w\<close> whose zero-extended
  value is \<open>n\<close>; \<open>ConstantOther\<close> is any other \<^verbatim>\<open>llvm::Constant\<close>; a \<open>GlobalVariable\<close>
  is an \<^verbatim>\<open>llvm::Constant\<close> as well. \<open>UnaryOther\<close> is a \<^verbatim>\<open>UnaryInstruction\<close> that is
  neither a cast nor a load. \<open>Other\<close> is every remaining kind of node (phi, call,
  address computation, select, ...); its operands are never read by this analysis and
  are left out.
\<close>

fun isConstant :: "val \<Rightarrow> bool" where
  "isConstant (ConstantInt w n) = True"
| "isConstant (ConstantOther i) = True"
| "isConstant (GlobalVariable i) = True"
| "isConstant v = False"

fun isBinaryOperator :: "val \<Rightarrow> bool" where
  "isBinaryOperator (Binary i opc a b) = True"
| "isBinaryOperator v = False"

fun isIntegerCast :: "castKind \<Rightarrow> bool" where
  "isIntegerCast IntegerCast = True"
| "isIntegerCast k = False"

text \<open>The depth of a node in the graph: the longest operand chain below it.\<close>

fun depth :: "val \<Rightarrow> nat" where
  "depth (Cast i k x) = Suc (depth x)"
| "depth (Load i p) = Suc (depth p)"
| "depth (UnaryOther i x) = Suc (depth x)"
| "depth (Binary i opc a b) = Suc (max (depth a) (depth b))"
| "depth v = 0"

section \<open>The classification store\<close>

record store =
  invariantValues :: "val set"
  affineValues :: "val set"
  variantValues :: "val set"
  threadIds :: "val set"

definition emptyStore :: store where
  "emptyStore = \<lparr>invariantValues = {}, affineValues = {}, variantValues = {}, threadIds = {}\<rparr>"

text \<open>The three marking helpers; each returns the boolean the source returns.\<close>

definition setAffine :: "val \<Rightarrow> store \<Rightarrow> bool \<times> store" where
  "setAffine v s = (True, s\<lparr>affineValues := insert v (affineValues s)\<rparr>)"

definition setInvariant :: "val \<Rightarrow> store \<Rightarrow> bool \<times> store" where
  "setInvariant v s = (True, s\<lparr>invariantValues := insert v (invariantValues s)\<rparr>)"

definition setVariant :: "val \<Rightarrow> store \<Rightarrow> bool \<times> store" where
  "setVariant v s = (False, s\<lparr>variantValues := insert v (variantValues s)\<rparr>)"

section \<open>Canonicalisation\<close>

text \<open>
  \<^verbatim>\<open>_walk\<close>: the \<^verbatim>\<open>do ... while (walking)\<close> loop replaces the value by operand 0 as long
  as it is a cast that is an integer cast, a pointer-to-integer or an integer-to-pointer
  conversion.
\<close>

fun walk :: "val \<Rightarrow> val" where
  "walk (Cast i k x) =
     (if isIntegerCast k \<or> k = PtrToInt \<or> k = IntToPtr then walk x else Cast i k x)"
| "walk v = v"

lemma depth_walk: "depth (walk v) \<le> depth v"
  by (induction v) auto

lemma depth_walk_eq:
  "Cast i k x = walk v \<Longrightarrow> depth x < depth v"
  "Load i p = walk v \<Longrightarrow> depth p < depth v"
  "Binary i opc a b = walk v \<Longrightarrow> depth a < depth v \<and> depth b < depth v"
  using depth_walk [of v] by (auto simp: less_Suc_eq_le dest: sym)

lemma walk_idem: "walk (walk v) = walk v"
  by (induction v) auto

section \<open>The thread-invariance predicate\<close>

text \<open>
  \<^verbatim>\<open>isThreadInvariant\<close>. The \<^verbatim>\<open>indent\<close> parameter only feeds the disabled
  \<^verbatim>\<open>report\<close> macro and is left out. The store is passed in and returned.
\<close>

function isThreadInvariant :: "store \<Rightarrow> val \<Rightarrow> bool \<times> store" where
  "isThreadInvariant s value0 =
    (let v = walk value0 in
     if v \<in> invariantValues s then (True, s)
     else if v \<in> affineValues s then (False, s)
     else if v \<in> variantValues s then (False, s)
     else if v \<in> threadIds s then (False, s)
     else if isConstant v then setInvariant v s
     else (case v of
         Cast i k x \<Rightarrow>
           (case isThreadInvariant s x of
              (r, s1) \<Rightarrow> if r then setInvariant v s1 else (False, s1))
       | Load i p \<Rightarrow>
           (case isThreadInvariant s p of
              (r, s1) \<Rightarrow> if r then setInvariant v s1 else (False, s1))
       | UnaryOther i x \<Rightarrow> (False, s)
       | Binary i opc a b \<Rightarrow>
           (case isThreadInvariant s a of
              (operand0, s1) \<Rightarrow>
                (case isThreadInvariant s1 b of
                   (operand1, s2) \<Rightarrow>
                     if operand0 \<and> operand1
                     then setInvariant b (snd (setInvariant a s2))
                     else (False, s2)))
       | _ \<Rightarrow> (False, s)))"
  by pat_completeness auto
termination
  by (relation "measure (\<lambda>(s, v). depth v)")
     (auto simp: less_Suc_eq_le dest!: depth_walk_eq)

declare isThreadInvariant.simps [simp del]


section \<open>The affine predicate and the binary-operator matcher\<close>

text \<open>
  The first half of \<^verbatim>\<open>_isBinaryOperatorAffine\<close>: \<^verbatim>\<open>constantExprIndex\<close> is 1 when the
  canonicalised operand 0 is a recorded thread index, 0 when the canonicalised operand 1
  is, and -1 otherwise; the operand in that slot is read uncanonicalised and must be a
  \<^verbatim>\<open>ConstantInt\<close>.
\<close>

definition constantExprIndex :: "store \<Rightarrow> val \<Rightarrow> val \<Rightarrow> int" where
  "constantExprIndex s a b =
     (if walk a \<in> threadIds s then 1 else if walk b \<in> threadIds s then 0 else - 1)"

definition getOperand :: "val \<Rightarrow> val \<Rightarrow> int \<Rightarrow> val" where
  "getOperand a b idx = (if idx = 0 then a else b)"

definition matchesIndexScaling :: "store \<Rightarrow> opcode \<Rightarrow> val \<Rightarrow> val \<Rightarrow> bool" where
  "matchesIndexScaling s opc a b =
     (let idx = constantExprIndex s a b in
      if idx \<ge> 0 then
        (case getOperand a b idx of
           ConstantInt w n \<Rightarrow>
             if opc = Shl \<and> n = 2 \<and> idx = 1 then True
             else if opc = Mul \<and> n = 4 then True
             else False
         | _ \<Rightarrow> False)
      else False)"

text \<open>
  \<^verbatim>\<open>isAffine\<close> and \<^verbatim>\<open>_isBinaryOperatorAffine\<close>. The matcher receives a
  \<^verbatim>\<open>BinaryOperator*\<close>, here the components \<open>i opc a b\<close> of the node
  \<open>Binary i opc a b\<close>. The operator \<^verbatim>\<open>&&\<close> evaluates its right operand only when the
  left one is true.
\<close>

function isAffine :: "store \<Rightarrow> val \<Rightarrow> bool \<times> store"
  and isBinaryOperatorAffine :: "store \<Rightarrow> nat \<Rightarrow> opcode \<Rightarrow> val \<Rightarrow> val \<Rightarrow> bool \<times> store"
where
  "isAffine s value0 =
    (let v = walk value0 in
     if v \<in> invariantValues s then (True, s)
     else if v \<in> affineValues s then (True, s)
     else if v \<in> variantValues s then (False, s)
     else (case v of
         Binary i opc a b \<Rightarrow> isBinaryOperatorAffine s i opc a b
       | _ \<Rightarrow> (False, s)))"
| "isBinaryOperatorAffine s i opc a b =
    (if matchesIndexScaling s opc a b then setAffine (Binary i opc a b) s
     else if opc = Add then
       (case isAffine s a of
          (r0, s1) \<Rightarrow>
            (case (if r0 then isThreadInvariant s1 b else (False, s1)) of
               (r1, s2) \<Rightarrow>
                 if r1 then setAffine (Binary i opc a b) s2
                 else
                   (case isAffine s2 b of
                      (r2, s3) \<Rightarrow>
                        (case (if r2 then isThreadInvariant s3 a else (False, s3)) of
                           (r3, s4) \<Rightarrow>
                             if r3 then setAffine (Binary i opc a b) s4
                             else (False, s4)))))
     else (False, s))"
  by pat_completeness auto
termination
  by (relation "measure (\<lambda>x. case x of
          Inl (s, v) \<Rightarrow> 2 * depth v + 1
        | Inr (s, i, opc, a, b) \<Rightarrow> 2 * Suc (max (depth a) (depth b)))")
     (auto simp: less_Suc_eq_le dest!: depth_walk_eq)

declare isAffine.simps [simp del]
declare isBinaryOperatorAffine.simps [simp del]

section \<open>Construction\<close>

text \<open>
  The constructor reads two static tables of \<^verbatim>\<open>LLVMUniformVectorization\<close>, which are
  declared outside this file and are taken as parameters:
  \<^verbatim>\<open>ThreadLocalArgumentInstances\<close> (pointers to members of \<^verbatim>\<open>ThreadLocalArgument\<close>) and
  \<^verbatim>\<open>ThreadLocalArgumentVarianceMap\<close> (one boolean per entry, true when the argument
  varies per thread). The source names the members \<^verbatim>\<open>threadId_x\<close> and
  \<^verbatim>\<open>ptrThreadDescriptorArray\<close> and the field \<^verbatim>\<open>threadIdUses\<close>.
\<close>

datatype member =
    threadId_x | threadId_y | threadId_z | ptrThreadDescriptorArray | otherMember nat

record threadLocalArgument =
  argument :: "member \<Rightarrow> val"
  threadIdUses :: int

record llvmFunction =
  instructions :: "val list"
  moduleGlobals :: "nat list"

text \<open>
  \<open>instructions\<close> is the body of the kernel and \<open>moduleGlobals\<close> lists the global
  variables of its module (\<^verbatim>\<open>function->getParent()\<close>), each of them the node
  \<open>GlobalVariable g\<close>.
\<close>

text \<open>
  The seeding loop
  \<^verbatim>\<open>for (i = 0; Instances[i] != &ThreadLocalArgument::ptrThreadDescriptorArray; i++)\<close>
  walks both tables in step. Reading past the end of a table is undefined behaviour in
  the source and is the result \<open>None\<close> here.
\<close>

fun seedInvariantArguments ::
  "member list \<Rightarrow> bool list \<Rightarrow> threadLocalArgument \<Rightarrow> store \<Rightarrow> store option" where
  "seedInvariantArguments [] vm ta s = None"
| "seedInvariantArguments (m # ms) vm ta s =
     (if m = ptrThreadDescriptorArray then Some s
      else (case vm of
          [] \<Rightarrow> None
        | varies # vm' \<Rightarrow>
            seedInvariantArguments ms vm' ta
              (if \<not> varies then snd (setInvariant (argument ta m) s) else s)))"

definition AffineInstructionSet ::
  "member list \<Rightarrow> bool list \<Rightarrow> llvmFunction \<Rightarrow> threadLocalArgument \<Rightarrow> store option" where
  "AffineInstructionSet instances varianceMap f threadArguments =
     (case seedInvariantArguments instances varianceMap threadArguments emptyStore of
        None \<Rightarrow> None
      | Some s1 \<Rightarrow>
          (let s2 = (if threadIdUses threadArguments = 1
                     then s1\<lparr>threadIds :=
                            insert (argument threadArguments threadId_x) (threadIds s1)\<rparr>
                     else s1)
           in Some (fold (\<lambda>g s. snd (setInvariant (GlobalVariable g) s)) (moduleGlobals f) s2)))"

section \<open>Sequences of queries\<close>

datatype query = QueryInvariant val | QueryAffine val

fun answer :: "store \<Rightarrow> query \<Rightarrow> bool \<times> store" where
  "answer s (QueryInvariant v) = isThreadInvariant s v"
| "answer s (QueryAffine v) = isAffine s v"

fun run :: "store \<Rightarrow> query list \<Rightarrow> store" where
  "run s [] = s"
| "run s (q # qs) = run (snd (answer s q)) qs"

definition unclassified :: "store \<Rightarrow> val \<Rightarrow> bool" where
  "unclassified s w \<longleftrightarrow>
     w \<notin> invariantValues s \<and> w \<notin> affineValues s \<and> w \<notin> variantValues s \<and> w \<notin> threadIds s"

lemma isTI_memo_inv:
  "walk v \<in> invariantValues s \<Longrightarrow> isThreadInvariant s v = (True, s)"
  by (subst isThreadInvariant.simps) simp

lemma isTI_memo_other:
  "walk v \<notin> invariantValues s \<Longrightarrow>
   walk v \<in> affineValues s \<or> walk v \<in> variantValues s \<or> walk v \<in> threadIds s \<Longrightarrow>
   isThreadInvariant s v = (False, s)"
  by (subst isThreadInvariant.simps) (auto simp: Let_def)

lemma isTI_constant:
  "unclassified s (walk v) \<Longrightarrow> isConstant (walk v) \<Longrightarrow>
   isThreadInvariant s v = setInvariant (walk v) s"
  by (subst isThreadInvariant.simps) (simp add: unclassified_def)

lemma isTI_cast:
  "unclassified s (walk v) \<Longrightarrow> walk v = Cast i k x \<Longrightarrow>
   isThreadInvariant s v =
     (if fst (isThreadInvariant s x) then setInvariant (walk v) (snd (isThreadInvariant s x))
      else (False, snd (isThreadInvariant s x)))"
  by (subst isThreadInvariant.simps) (simp add: unclassified_def split: prod.splits)

lemma isTI_load:
  "unclassified s (walk v) \<Longrightarrow> walk v = Load i p \<Longrightarrow>
   isThreadInvariant s v =
     (if fst (isThreadInvariant s p) then setInvariant (walk v) (snd (isThreadInvariant s p))
      else (False, snd (isThreadInvariant s p)))"
  by (subst isThreadInvariant.simps) (simp add: unclassified_def split: prod.splits)

lemma isTI_binary:
  "unclassified s (walk v) \<Longrightarrow> walk v = Binary i opc a b \<Longrightarrow>
   isThreadInvariant s v =
     (let r0 = isThreadInvariant s a; r1 = isThreadInvariant (snd r0) b in
      if fst r0 \<and> fst r1 then setInvariant b (snd (setInvariant a (snd r1)))
      else (False, snd r1))"
  by (subst isThreadInvariant.simps) (simp add: unclassified_def Let_def split: prod.splits)

fun unrecognised :: "val \<Rightarrow> bool" where
  "unrecognised (UnaryOther i x) = True"
| "unrecognised (Argument i) = True"
| "unrecognised (Other i) = True"
| "unrecognised v = False"

lemma isTI_unrecognised:
  "unclassified s (walk v) \<Longrightarrow> unrecognised (walk v) \<Longrightarrow> isThreadInvariant s v = (False, s)"
  by (subst isThreadInvariant.simps) (cases "walk v"; simp add: unclassified_def)

lemma isTI_induct [case_names memoInv memoOther isConst isCast isLoad isBinary isUnrec]:
  assumes "\<And>s v. walk v \<in> invariantValues s \<Longrightarrow> P s v"
    and "\<And>s v. walk v \<notin> invariantValues s \<Longrightarrow>
           walk v \<in> affineValues s \<or> walk v \<in> variantValues s \<or> walk v \<in> threadIds s \<Longrightarrow> P s v"
    and "\<And>s v. unclassified s (walk v) \<Longrightarrow> isConstant (walk v) \<Longrightarrow> P s v"
    and "\<And>s v i k x. unclassified s (walk v) \<Longrightarrow> walk v = Cast i k x \<Longrightarrow> P s x \<Longrightarrow> P s v"
    and "\<And>s v i p. unclassified s (walk v) \<Longrightarrow> walk v = Load i p \<Longrightarrow> P s p \<Longrightarrow> P s v"
    and "\<And>s v i opc a b. unclassified s (walk v) \<Longrightarrow> walk v = Binary i opc a b \<Longrightarrow>
           P s a \<Longrightarrow> P (snd (isThreadInvariant s a)) b \<Longrightarrow> P s v"
    and "\<And>s v. unclassified s (walk v) \<Longrightarrow> unrecognised (walk v) \<Longrightarrow> P s v"
  shows "P s v"
proof (induction s v rule: isThreadInvariant.induct)
  case (1 s v)
  show ?case
  proof (cases "unclassified s (walk v)")
    case False
    then show ?thesis using assms(1,2) by (auto simp: unclassified_def)
  next
    case u: True
    show ?thesis
    proof (cases "walk v")
      case (Cast i k x)
      then show ?thesis using u 1(1) assms(4) by (simp add: unclassified_def)
    next
      case (Load i p)
      then show ?thesis using u 1(2) assms(5) by (simp add: unclassified_def)
    next
      case (Binary i opc a b)
      have "P s a" using Binary u 1(3) by (simp add: unclassified_def)
      moreover have "P (snd (isThreadInvariant s a)) b"
        using Binary u 1(4) [of "walk v" i opc a b "fst (isThreadInvariant s a)" "snd (isThreadInvariant s a)"]
        by (simp add: unclassified_def)
      ultimately show ?thesis using Binary u assms(6) by blast
    qed (use u assms(3,7) in auto)
  qed
qed

lemma isTI_frame:
  "affineValues (snd (isThreadInvariant s v)) = affineValues s \<and>
   variantValues (snd (isThreadInvariant s v)) = variantValues s \<and>
   threadIds (snd (isThreadInvariant s v)) = threadIds s \<and>
   invariantValues s \<subseteq> invariantValues (snd (isThreadInvariant s v))"
proof (induction s v rule: isTI_induct)
  case (isBinary s v i opc a b)
  then show ?case by (auto simp: isTI_binary setInvariant_def Let_def)
qed (auto simp: isTI_memo_inv isTI_memo_other isTI_constant isTI_cast isTI_load isTI_unrecognised setInvariant_def)

text \<open>
  \<^verbatim>\<open>isAffine(x) && isThreadInvariant(y)\<close>, the conjunction the matcher evaluates for each
  operand order of an addition.
\<close>

definition affineAndInvariant :: "store \<Rightarrow> val \<Rightarrow> val \<Rightarrow> bool \<times> store" where
  "affineAndInvariant s x y =
     (if fst (isAffine s x) then isThreadInvariant (snd (isAffine s x)) y
      else (False, snd (isAffine s x)))"

definition uncached :: "store \<Rightarrow> val \<Rightarrow> bool" where
  "uncached s w \<longleftrightarrow>
     w \<notin> invariantValues s \<and> w \<notin> affineValues s \<and> w \<notin> variantValues s"

lemma isAff_memo:
  "walk v \<in> invariantValues s \<or> walk v \<in> affineValues s \<Longrightarrow> isAffine s v = (True, s)"
  by (subst isAffine.simps) (auto simp: Let_def)

lemma isAff_memo_var:
  "walk v \<notin> invariantValues s \<Longrightarrow> walk v \<notin> affineValues s \<Longrightarrow>
   walk v \<in> variantValues s \<Longrightarrow> isAffine s v = (False, s)"
  by (subst isAffine.simps) (auto simp: Let_def)

lemma isAff_nonbinary:
  "uncached s (walk v) \<Longrightarrow> \<not> isBinaryOperator (walk v) \<Longrightarrow> isAffine s v = (False, s)"
  by (subst isAffine.simps) (cases "walk v"; simp add: uncached_def)

lemma isAff_binary:
  "uncached s (walk v) \<Longrightarrow> walk v = Binary i opc a b \<Longrightarrow>
   isAffine s v = isBinaryOperatorAffine s i opc a b"
  by (subst isAffine.simps) (simp add: uncached_def)

lemma isBOA_scaling:
  "matchesIndexScaling s opc a b \<Longrightarrow>
   isBinaryOperatorAffine s i opc a b = setAffine (Binary i opc a b) s"
  by (subst isBinaryOperatorAffine.simps) simp

lemma isBOA_notAdd:
  "\<not> matchesIndexScaling s opc a b \<Longrightarrow> opc \<noteq> Add \<Longrightarrow>
   isBinaryOperatorAffine s i opc a b = (False, s)"
  by (subst isBinaryOperatorAffine.simps) simp

lemma isBOA_add:
  "\<not> matchesIndexScaling s Add a b \<Longrightarrow>
   isBinaryOperatorAffine s i Add a b =
     (if fst (affineAndInvariant s a b)
      then setAffine (Binary i Add a b) (snd (affineAndInvariant s a b))
      else if fst (affineAndInvariant (snd (affineAndInvariant s a b)) b a)
      then setAffine (Binary i Add a b)
             (snd (affineAndInvariant (snd (affineAndInvariant s a b)) b a))
      else (False, snd (affineAndInvariant (snd (affineAndInvariant s a b)) b a)))"
  by (subst isBinaryOperatorAffine.simps)
     (simp add: affineAndInvariant_def split: prod.splits)

lemma isAff_induct_aux:
  assumes "\<And>s v. walk v \<in> invariantValues s \<or> walk v \<in> affineValues s \<Longrightarrow> P s v"
    and "\<And>s v. walk v \<notin> invariantValues s \<Longrightarrow> walk v \<notin> affineValues s \<Longrightarrow>
           walk v \<in> variantValues s \<Longrightarrow> P s v"
    and "\<And>s v. uncached s (walk v) \<Longrightarrow> \<not> isBinaryOperator (walk v) \<Longrightarrow> P s v"
    and "\<And>s v i opc a b. uncached s (walk v) \<Longrightarrow> walk v = Binary i opc a b \<Longrightarrow>
           matchesIndexScaling s opc a b \<Longrightarrow> P s v"
    and "\<And>s v i opc a b. uncached s (walk v) \<Longrightarrow> walk v = Binary i opc a b \<Longrightarrow>
           \<not> matchesIndexScaling s opc a b \<Longrightarrow> opc \<noteq> Add \<Longrightarrow> P s v"
    and "\<And>s v i a b. uncached s (walk v) \<Longrightarrow> walk v = Binary i Add a b \<Longrightarrow>
           \<not> matchesIndexScaling s Add a b \<Longrightarrow> P s a \<Longrightarrow>
           (\<not> fst (affineAndInvariant s a b) \<Longrightarrow> P (snd (affineAndInvariant s a b)) b) \<Longrightarrow>
           P s v"
  shows "P s v"
    and "(i::nat) = i \<Longrightarrow> \<not> matchesIndexScaling s opc a b \<Longrightarrow> opc = Add \<Longrightarrow>
         P s a \<and> (\<not> fst (affineAndInvariant s a b) \<longrightarrow> P (snd (affineAndInvariant s a b)) b)"
proof (induction s v and s i opc a b rule: isAffine_isBinaryOperatorAffine.induct)
  case (1 s v)
  show ?case
  proof (cases "uncached s (walk v)")
    case False
    then show ?thesis using assms(1,2) by (auto simp: uncached_def)
  next
    case u: True
    show ?thesis
    proof (cases "walk v")
      case (Binary i opc a b)
      have ih: "\<not> matchesIndexScaling s opc a b \<Longrightarrow> opc = Add \<Longrightarrow>
         P s a \<and> (\<not> fst (affineAndInvariant s a b) \<longrightarrow> P (snd (affineAndInvariant s a b)) b)"
        using 1 [of "walk v" i opc a b] Binary u by (simp add: uncached_def)
      show ?thesis
      proof (cases "matchesIndexScaling s opc a b")
        case True
        then show ?thesis using assms(4) u Binary by blast
      next
        case nm: False
        show ?thesis
        proof (cases "opc = Add")
          case True
          then show ?thesis using assms(6) [of s v i a b] u Binary nm ih by auto
        next
          case False
          then show ?thesis using assms(5) u Binary nm by blast
        qed
      qed
    qed (use u assms(3) in auto)
  qed
next
  case (2 s i opc a b)
  have a: "P s a" using "2.IH"(1) "2.prems" by simp
  have "P (snd (affineAndInvariant s a b)) b" if "\<not> fst (affineAndInvariant s a b)"
    using "2.IH"(2) [of "fst (isAffine s a)" "snd (isAffine s a)"
        "fst (affineAndInvariant s a b)" "snd (affineAndInvariant s a b)"] "2.prems" that
    by (simp add: affineAndInvariant_def)
  with a show ?case by simp
qed

lemmas isAff_induct [case_names memo memoVar nonBinary scaling notAdd add] =
  isAff_induct_aux(1)

section \<open>Frame and locality of the queries\<close>

lemma setInvariant_sets [simp]:
  "invariantValues (snd (setInvariant v s)) = insert v (invariantValues s)"
  "affineValues (snd (setInvariant v s)) = affineValues s"
  "variantValues (snd (setInvariant v s)) = variantValues s"
  "threadIds (snd (setInvariant v s)) = threadIds s"
  "fst (setInvariant v s) = True"
  by (simp_all add: setInvariant_def)

lemma setAffine_sets [simp]:
  "invariantValues (snd (setAffine v s)) = invariantValues s"
  "affineValues (snd (setAffine v s)) = insert v (affineValues s)"
  "variantValues (snd (setAffine v s)) = variantValues s"
  "threadIds (snd (setAffine v s)) = threadIds s"
  "fst (setAffine v s) = True"
  by (simp_all add: setAffine_def)

lemma isTI_affine [simp]: "affineValues (snd (isThreadInvariant s v)) = affineValues s"
  using isTI_frame by blast

lemma isTI_variant [simp]: "variantValues (snd (isThreadInvariant s v)) = variantValues s"
  using isTI_frame by blast

lemma isTI_threadIds [simp]: "threadIds (snd (isThreadInvariant s v)) = threadIds s"
  using isTI_frame by blast

lemma isTI_grows: "invariantValues s \<subseteq> invariantValues (snd (isThreadInvariant s v))"
  using isTI_frame by blast

text \<open>
  What a query adds to \<open>Invariant\<close> lies in the graph below the queried value: it is the
  canonical value itself (only when the answer is true) or a node of smaller depth.
\<close>

lemma isTI_local:
  "x \<in> invariantValues (snd (isThreadInvariant s v)) \<Longrightarrow>
   x \<in> invariantValues s \<or> (x = walk v \<and> fst (isThreadInvariant s v)) \<or> depth x < depth (walk v)"
proof (induction s v arbitrary: x rule: isTI_induct)
  case (isCast s v i k y)
  obtain r s1 where r: "isThreadInvariant s y = (r, s1)" by (cases "isThreadInvariant s y")
  have d: "depth (walk y) < depth (walk v)"
    using isCast(2) depth_walk [of y] by simp
  have "(x = walk v \<and> fst (isThreadInvariant s v)) \<or> x \<in> invariantValues s1"
    using isCast(4) r by (simp add: isTI_cast [OF isCast(1,2)] split: if_splits)
  then show ?case using isCast(3) [of x] r d by auto
next
  case (isLoad s v i p)
  obtain r s1 where r: "isThreadInvariant s p = (r, s1)" by (cases "isThreadInvariant s p")
  have d: "depth (walk p) < depth (walk v)"
    using isLoad(2) depth_walk [of p] by simp
  have "(x = walk v \<and> fst (isThreadInvariant s v)) \<or> x \<in> invariantValues s1"
    using isLoad(4) r by (simp add: isTI_load [OF isLoad(1,2)] split: if_splits)
  then show ?case using isLoad(3) [of x] r d by auto
next
  case (isBinary s v i opc a b)
  let ?s1 = "snd (isThreadInvariant s a)"
  let ?s2 = "snd (isThreadInvariant ?s1 b)"
  have da: "depth a < depth (walk v)" and db: "depth b < depth (walk v)"
    using isBinary(2) by (simp_all add: less_Suc_eq_le)
  have wa: "depth (walk a) < depth (walk v)" and wb: "depth (walk b) < depth (walk v)"
    using da db depth_walk [of a] depth_walk [of b] by simp_all
  have "x \<in> invariantValues ?s2 \<or> x = a \<or> x = b"
    using isBinary(5) by (auto simp: isTI_binary [OF isBinary(1,2)] Let_def split: if_splits)
  then consider "x \<in> invariantValues ?s2" | "x = a" | "x = b" by blast
  then show ?case
  proof cases
    case 1
    from isBinary(4) [OF 1] have
      "x \<in> invariantValues ?s1 \<or> x = walk b \<or> depth x < depth (walk b)" by blast
    moreover have "x \<in> invariantValues ?s1 \<Longrightarrow>
        x \<in> invariantValues s \<or> x = walk a \<or> depth x < depth (walk a)"
      using isBinary(3) [of x] by blast
    ultimately show ?thesis using wa wb by auto
  next
    case 2
    then show ?thesis using da by simp
  next
    case 3
    then show ?thesis using db by simp
  qed
qed (auto simp: isTI_memo_inv isTI_memo_other isTI_constant isTI_unrecognised)

lemma isTI_false_not_cached:
  assumes "\<not> fst (isThreadInvariant s v)"
  shows "walk v \<notin> invariantValues (snd (isThreadInvariant s v))"
proof
  assume "walk v \<in> invariantValues (snd (isThreadInvariant s v))"
  from isTI_local [OF this] assms have "walk v \<in> invariantValues s" by simp
  then show False using assms by (simp add: isTI_memo_inv)
qed

definition extends :: "store \<Rightarrow> store \<Rightarrow> bool" where
  "extends s s' \<longleftrightarrow>
     invariantValues s \<subseteq> invariantValues s' \<and> affineValues s \<subseteq> affineValues s' \<and>
     variantValues s' = variantValues s \<and> threadIds s' = threadIds s"

lemma extends_refl [simp]: "extends s s"
  by (simp add: extends_def)

lemma extends_trans: "extends s s1 \<Longrightarrow> extends s1 s2 \<Longrightarrow> extends s s2"
  by (auto simp: extends_def)

lemma extends_setInvariant [simp]: "extends s (snd (setInvariant v s))"
  by (auto simp: extends_def)

lemma extends_setAffine [simp]: "extends s (snd (setAffine v s))"
  by (auto simp: extends_def)

lemma isTI_extends: "extends s (snd (isThreadInvariant s v))"
  using isTI_frame [of s v] by (simp add: extends_def)

lemma aAI_extends:
  assumes "extends s (snd (isAffine s x))"
  shows "extends s (snd (affineAndInvariant s x y))"
  using assms isTI_extends [of "snd (isAffine s x)" y]
  by (auto simp: affineAndInvariant_def intro: extends_trans)

lemma isAff_extends: "extends s (snd (isAffine s v))"
proof (induction s v rule: isAff_induct)
  case (add s v i a b)
  let ?p1 = "affineAndInvariant s a b"
  let ?p2 = "affineAndInvariant (snd ?p1) b a"
  have p1: "extends s (snd ?p1)" using add(4) by (rule aAI_extends)
  have p2: "extends s (snd ?p2)" if "\<not> fst ?p1"
    using add(5) [OF that] p1 by (blast intro: aAI_extends extends_trans)
  have "isAffine s v = isBinaryOperatorAffine s i Add a b"
    using add(1,2) by (rule isAff_binary)
  then show ?case
    using p1 p2 add(3) extends_setAffine
    by (auto simp: isBOA_add intro: extends_trans)
qed (simp_all add: isAff_memo isAff_memo_var isAff_nonbinary isAff_binary isBOA_scaling isBOA_notAdd)

lemma isAff_frame:
  "variantValues (snd (isAffine s v)) = variantValues s \<and>
   threadIds (snd (isAffine s v)) = threadIds s \<and>
   invariantValues s \<subseteq> invariantValues (snd (isAffine s v)) \<and>
   affineValues s \<subseteq> affineValues (snd (isAffine s v))"
  using isAff_extends [of s v] by (simp add: extends_def)

lemma isAff_variant [simp]: "variantValues (snd (isAffine s v)) = variantValues s"
  using isAff_frame by blast

lemma isAff_threadIds [simp]: "threadIds (snd (isAffine s v)) = threadIds s"
  using isAff_frame by blast

lemma isAff_grows:
  "invariantValues s \<subseteq> invariantValues (snd (isAffine s v))"
  "affineValues s \<subseteq> affineValues (snd (isAffine s v))"
  using isAff_frame by blast+

lemma answer_frame:
  "variantValues (snd (answer s q)) = variantValues s \<and>
   threadIds (snd (answer s q)) = threadIds s \<and>
   invariantValues s \<subseteq> invariantValues (snd (answer s q)) \<and>
   affineValues s \<subseteq> affineValues (snd (answer s q))"
  by (cases q) (simp_all add: isTI_grows isAff_grows)

lemma run_frame:
  "variantValues (run s qs) = variantValues s \<and>
   threadIds (run s qs) = threadIds s \<and>
   invariantValues s \<subseteq> invariantValues (run s qs) \<and>
   affineValues s \<subseteq> affineValues (run s qs)"
proof (induction qs arbitrary: s)
  case Nil
  show ?case by simp
next
  case (Cons q qs)
  show ?case using Cons [of "snd (answer s q)"] answer_frame [of s q] by auto
qed


text \<open>
  \<open>below ni na s s'\<close>: the store \<open>s'\<close> extends \<open>s\<close>, every value new in \<open>Invariant\<close> has
  depth less than \<open>ni\<close>, and every value new in \<open>Affine\<close> is a binary operator of depth
  less than \<open>na\<close>.
\<close>

definition below :: "nat \<Rightarrow> nat \<Rightarrow> store \<Rightarrow> store \<Rightarrow> bool" where
  "below ni na s s' \<longleftrightarrow>
     extends s s' \<and>
     (\<forall>x \<in> invariantValues s' - invariantValues s. depth x < ni) \<and>
     (\<forall>x \<in> affineValues s' - affineValues s. isBinaryOperator x \<and> depth x < na)"

lemma below_refl [simp]: "below ni na s s"
  by (simp add: below_def)

lemma below_trans: "below ni na s s1 \<Longrightarrow> below ni na s1 s2 \<Longrightarrow> below ni na s s2"
  unfolding below_def by (blast intro: extends_trans)

lemma below_mono: "below ni na s s' \<Longrightarrow> ni \<le> ni' \<Longrightarrow> na \<le> na' \<Longrightarrow> below ni' na' s s'"
  unfolding below_def by (meson less_le_trans)

lemma below_extends: "below ni na s s' \<Longrightarrow> extends s s'"
  by (simp add: below_def)

lemma isTI_below: "below (Suc (depth (walk v))) na s (snd (isThreadInvariant s v))"
  unfolding below_def using isTI_extends [of s v] isTI_local [of _ s v]
  by (auto simp: less_Suc_eq)

lemma isTI_below_false:
  "\<not> fst (isThreadInvariant s v) \<Longrightarrow> below (depth (walk v)) na s (snd (isThreadInvariant s v))"
  unfolding below_def using isTI_extends [of s v] isTI_local [of _ s v]
  by auto

lemma below_setAffine:
  "isBinaryOperator w \<Longrightarrow> below ni (Suc (depth w)) s (snd (setAffine w s))"
  by (auto simp: below_def)

lemma aAI_below:
  assumes "below (depth (walk x)) (Suc (depth (walk x))) s (snd (isAffine s x))"
    and "depth x < n" and "depth y < n"
  shows "below n n s (snd (affineAndInvariant s x y))"
proof -
  have x: "depth (walk x) < n" and y: "depth (walk y) < n"
    using assms(2,3) depth_walk [of x] depth_walk [of y] by simp_all
  have 1: "below n n s (snd (isAffine s x))"
    using below_mono [OF assms(1), of n n] x by simp
  have 2: "below n n (snd (isAffine s x)) (snd (isThreadInvariant (snd (isAffine s x)) y))"
    using below_mono [OF isTI_below [of y n "snd (isAffine s x)"], of n n] y by simp
  show ?thesis using 1 2 by (auto simp: affineAndInvariant_def intro: below_trans)
qed

lemma isAff_below:
  "below (depth (walk v)) (if fst (isAffine s v) then Suc (depth (walk v)) else depth (walk v))
     s (snd (isAffine s v))"
proof (induction s v rule: isAff_induct)
  case (scaling s v i opc a b)
  have "isAffine s v = setAffine (walk v) s"
    using scaling by (simp add: isAff_binary isBOA_scaling)
  then show ?case using scaling(2) below_setAffine [of "walk v"] by simp
next
  case (add s v i a b)
  let ?n = "depth (walk v)"
  let ?p1 = "affineAndInvariant s a b"
  let ?p2 = "affineAndInvariant (snd ?p1) b a"
  have da: "depth a < ?n" and db: "depth b < ?n"
    using add(2) by (simp_all add: less_Suc_eq_le)
  have iha: "below (depth (walk a)) (Suc (depth (walk a))) s (snd (isAffine s a))"
    using add(4) by (rule below_mono) simp_all
  have p1: "below ?n ?n s (snd ?p1)" using iha da db by (rule aAI_below)
  have p2: "below ?n ?n s (snd ?p2)" if nf: "\<not> fst ?p1"
  proof -
    have "below (depth (walk b)) (Suc (depth (walk b))) (snd ?p1) (snd (isAffine (snd ?p1) b))"
      using add(5) [OF nf] by (rule below_mono) simp_all
    then have "below ?n ?n (snd ?p1) (snd ?p2)" using db da by (rule aAI_below)
    with p1 show ?thesis by (rule below_trans)
  qed
  have w: "isBinaryOperator (walk v)" using add(2) by simp
  have eq: "isAffine s v = isBinaryOperatorAffine s i Add a b"
    using add(1,2) by (rule isAff_binary)
  have ins: "below ?n (Suc ?n) s (snd (setAffine (walk v) s'))" if "below ?n ?n s s'" for s'
    using below_trans [OF below_mono [OF that, of ?n "Suc ?n"] below_setAffine [OF w, of ?n s']]
    by simp
  show ?case
  proof (cases "fst ?p1")
    case True
    then show ?thesis using ins [OF p1] add(2) by (simp add: eq isBOA_add [OF add(3)])
  next
    case f1: False
    show ?thesis
    proof (cases "fst ?p2")
      case True
      then show ?thesis using f1 ins [OF p2 [OF f1]] add(2) by (simp add: eq isBOA_add [OF add(3)])
    next
      case False
      then show ?thesis using f1 p2 [OF f1] by (simp add: eq isBOA_add [OF add(3)])
    qed
  qed
qed (simp_all add: isAff_memo isAff_memo_var isAff_nonbinary isAff_binary isBOA_notAdd)

lemma isAff_false_not_cached:
  assumes "\<not> fst (isAffine s v)"
  shows "walk v \<notin> invariantValues (snd (isAffine s v))"
    and "walk v \<notin> affineValues (snd (isAffine s v))"
proof -
  have m: "walk v \<notin> invariantValues s" "walk v \<notin> affineValues s"
    using assms isAff_memo [of v s] by auto
  have "below (depth (walk v)) (depth (walk v)) s (snd (isAffine s v))"
    using isAff_below [of v s] assms by simp
  then show "walk v \<notin> invariantValues (snd (isAffine s v))"
    and "walk v \<notin> affineValues (snd (isAffine s v))"
    using m unfolding below_def by blast+
qed

lemma isAff_true_cached:
  assumes "fst (isAffine s v)"
  shows "walk v \<in> invariantValues (snd (isAffine s v)) \<or> walk v \<in> affineValues (snd (isAffine s v))"
  using assms
proof (induction s v rule: isAff_induct)
  case (add s v i a b)
  have eq: "isAffine s v = isBinaryOperatorAffine s i Add a b"
    using add(1,2) by (rule isAff_binary)
  show ?case using add(6) add(2)
    by (auto simp: eq isBOA_add [OF add(3)] split: if_splits)
qed (simp_all add: isAff_memo isAff_memo_var isAff_nonbinary isAff_binary isBOA_scaling isBOA_notAdd)

section \<open>Facts about construction\<close>

lemma seed_frame:
  "seedInvariantArguments ms vm ta s = Some s' \<Longrightarrow>
   affineValues s' = affineValues s \<and> variantValues s' = variantValues s \<and>
   threadIds s' = threadIds s \<and> invariantValues s \<subseteq> invariantValues s'"
proof (induction ms vm ta s rule: seedInvariantArguments.induct)
  case (1 vm ta s)
  then show ?case by simp
next
  case (2 m ms vm ta s)
  show ?case
  proof (cases "m = ptrThreadDescriptorArray")
    case True
    then show ?thesis using 2(2) by simp
  next
    case nm: False
    then obtain varies vm' where vm: "vm = varies # vm'"
      using 2(2) by (cases vm) simp_all
    show ?thesis
      using 2(1) [OF nm vm] 2(2) nm vm by (auto split: if_splits)
  qed
qed

text \<open>The index of the first entry that is the loop's terminator.\<close>

definition terminatorIndex :: "member list \<Rightarrow> nat" where
  "terminatorIndex ms = length (takeWhile (\<lambda>m. m \<noteq> ptrThreadDescriptorArray) ms)"

lemma seed_invariant:
  "seedInvariantArguments ms vm ta s = Some s' \<Longrightarrow>
   terminatorIndex ms < length ms \<and> terminatorIndex ms \<le> length vm \<and>
   invariantValues s' =
     invariantValues s \<union> {argument ta (ms ! i) | i. i < terminatorIndex ms \<and> \<not> vm ! i}"
proof (induction ms vm ta s rule: seedInvariantArguments.induct)
  case (1 vm ta s)
  then show ?case by simp
next
  case (2 m ms vm ta s)
  show ?case
  proof (cases "m = ptrThreadDescriptorArray")
    case True
    then show ?thesis using 2(2) by (simp add: terminatorIndex_def)
  next
    case nm: False
    then obtain varies vm' where vm: "vm = varies # vm'"
      using 2(2) by (cases vm) simp_all
    let ?s = "if \<not> varies then snd (setInvariant (argument ta m) s) else s"
    have rec: "seedInvariantArguments ms vm' ta ?s = Some s'"
      using 2(2) nm vm by simp
    note ih = 2(1) [OF nm vm rec]
    have t: "terminatorIndex (m # ms) = Suc (terminatorIndex ms)"
      using nm by (simp add: terminatorIndex_def)
    have set_eq: "{argument ta ((m # ms) ! i) | i. i < Suc (terminatorIndex ms) \<and> \<not> (varies # vm') ! i}
        = (if \<not> varies then {argument ta m} else {}) \<union>
          {argument ta (ms ! i) | i. i < terminatorIndex ms \<and> \<not> vm' ! i}"
      (is "?L = ?R")
    proof
      show "?L \<subseteq> ?R"
      proof
        fix x assume "x \<in> ?L"
        then obtain i where i: "x = argument ta ((m # ms) ! i)" "i < Suc (terminatorIndex ms)"
          "\<not> (varies # vm') ! i" by blast
        show "x \<in> ?R"
        proof (cases i)
          case 0
          then show ?thesis using i by simp
        next
          case (Suc j)
          then show ?thesis using i by auto
        qed
      qed
      show "?R \<subseteq> ?L"
      proof
        fix x assume "x \<in> ?R"
        then consider "\<not> varies" "x = argument ta m"
          | j where "x = argument ta (ms ! j)" "j < terminatorIndex ms" "\<not> vm' ! j"
          by (auto split: if_splits)
        then show "x \<in> ?L"
        proof cases
          case 1
          then have "x = argument ta ((m # ms) ! 0) \<and> 0 < Suc (terminatorIndex ms) \<and>
              \<not> (varies # vm') ! 0" by simp
          then show ?thesis by blast
        next
          case 2
          then have "x = argument ta ((m # ms) ! Suc j) \<and> Suc j < Suc (terminatorIndex ms) \<and>
              \<not> (varies # vm') ! Suc j" by simp
          then show ?thesis by blast
        qed
      qed
    qed
    show ?thesis using ih t vm set_eq by (auto split: if_splits)
  qed
qed

lemma fold_setInvariant:
  "invariantValues (fold (\<lambda>g s. snd (setInvariant (GlobalVariable g) s)) gs s)
     = invariantValues s \<union> GlobalVariable ` set gs \<and>
   affineValues (fold (\<lambda>g s. snd (setInvariant (GlobalVariable g) s)) gs s) = affineValues s \<and>
   variantValues (fold (\<lambda>g s. snd (setInvariant (GlobalVariable g) s)) gs s) = variantValues s \<and>
   threadIds (fold (\<lambda>g s. snd (setInvariant (GlobalVariable g) s)) gs s) = threadIds s"
  by (induction gs arbitrary: s) auto

lemma construct_sets:
  assumes "AffineInstructionSet insts vm f ta = Some s0"
  shows "affineValues s0 = {}" and "variantValues s0 = {}"
    and "threadIds s0 = (if threadIdUses ta = 1 then {argument ta threadId_x} else {})"
    and "invariantValues s0 =
           {argument ta (insts ! i) | i. i < terminatorIndex insts \<and> \<not> vm ! i}
           \<union> GlobalVariable ` set (moduleGlobals f)"
    and "terminatorIndex insts < length insts" and "terminatorIndex insts \<le> length vm"
proof -
  obtain s1 where s1: "seedInvariantArguments insts vm ta emptyStore = Some s1"
    using assms by (auto simp: AffineInstructionSet_def split: option.splits)
  let ?s2 = "if threadIdUses ta = 1
             then s1\<lparr>threadIds := insert (argument ta threadId_x) (threadIds s1)\<rparr> else s1"
  have s0: "s0 = fold (\<lambda>g s. snd (setInvariant (GlobalVariable g) s)) (moduleGlobals f) ?s2"
    using assms s1 by (simp add: AffineInstructionSet_def Let_def)
  have fr: "affineValues s1 = {}" "variantValues s1 = {}" "threadIds s1 = {}"
    using seed_frame [OF s1] by (simp_all add: emptyStore_def)
  have inv: "invariantValues s1 =
       {argument ta (insts ! i) | i. i < terminatorIndex insts \<and> \<not> vm ! i}"
    using seed_invariant [OF s1] by (simp add: emptyStore_def)
  show "affineValues s0 = {}" using fr by (simp add: s0 fold_setInvariant)
  show "variantValues s0 = {}" using fr by (simp add: s0 fold_setInvariant)
  show "threadIds s0 = (if threadIdUses ta = 1 then {argument ta threadId_x} else {})"
    using fr by (simp add: s0 fold_setInvariant)
  show "invariantValues s0 =
           {argument ta (insts ! i) | i. i < terminatorIndex insts \<and> \<not> vm ! i}
           \<union> GlobalVariable ` set (moduleGlobals f)"
    using inv by (simp add: s0 fold_setInvariant)
  show "terminatorIndex insts < length insts" "terminatorIndex insts \<le> length vm"
    using seed_invariant [OF s1] by simp_all
qed

section \<open>An example kernel configuration\<close>

text \<open>
  A configuration used to instantiate the theorems below: the three thread-index
  components and one further special argument are loads from a thread descriptor, the
  thread-index components are tagged as varying per thread, the further argument as
  constant across threads, and the module has one global variable.
\<close>

definition exampleInstances :: "member list" where
  "exampleInstances =
     [threadId_x, threadId_y, threadId_z, otherMember 0, ptrThreadDescriptorArray]"

definition exampleVarianceMap :: "bool list" where
  "exampleVarianceMap = [True, True, True, False, False]"

definition tidX :: val where "tidX = Load 1 (Other 11)"
definition tidY :: val where "tidY = Load 2 (Other 12)"
definition tidZ :: val where "tidZ = Load 3 (Other 13)"
definition blockDim :: val where "blockDim = Load 4 (Other 14)"
definition descriptors :: val where "descriptors = Argument 0"

definition exampleArguments :: threadLocalArgument where
  "exampleArguments =
     \<lparr>argument = (\<lambda>m. case m of
          threadId_x \<Rightarrow> tidX | threadId_y \<Rightarrow> tidY | threadId_z \<Rightarrow> tidZ
        | ptrThreadDescriptorArray \<Rightarrow> descriptors | otherMember n \<Rightarrow> blockDim),
      threadIdUses = 1\<rparr>"

definition exampleFunction :: llvmFunction where
  "exampleFunction =
     \<lparr>instructions = [Binary 5 Shl tidX (ConstantInt 32 2)],
      moduleGlobals = [0]\<rparr>"

definition exampleStore :: store where
  "exampleStore =
     \<lparr>invariantValues = {GlobalVariable 0, blockDim}, affineValues = {},
      variantValues = {}, threadIds = {tidX}\<rparr>"

lemma example_construction:
  "AffineInstructionSet exampleInstances exampleVarianceMap exampleFunction exampleArguments
     = Some exampleStore"
  by (simp add: AffineInstructionSet_def exampleInstances_def exampleVarianceMap_def
      exampleFunction_def exampleArguments_def exampleStore_def emptyStore_def
      setInvariant_def)

section \<open>The Variant set\<close>

definition queried :: "query \<Rightarrow> val" where
  "queried q = (case q of QueryInvariant v \<Rightarrow> v | QueryAffine v \<Rightarrow> v)"

text \<open>The memo entry of a value: its membership in each of the four sets.\<close>

definition classification :: "store \<Rightarrow> val \<Rightarrow> bool \<times> bool \<times> bool \<times> bool" where
  "classification s w =
     (w \<in> invariantValues s, w \<in> affineValues s, w \<in> variantValues s, w \<in> threadIds s)"

lemma answer_false_not_cached:
  assumes "\<not> fst (answer s q)"
  shows "classification (snd (answer s q)) (walk (queried q)) = classification s (walk (queried q))"
proof (cases q)
  case (QueryInvariant v)
  have "walk v \<notin> invariantValues s" using assms QueryInvariant isTI_memo_inv [of v s] by auto
  then show ?thesis
    using assms QueryInvariant isTI_false_not_cached [of s v]
    by (simp add: classification_def queried_def)
next
  case (QueryAffine v)
  have "walk v \<notin> invariantValues s" "walk v \<notin> affineValues s"
    using assms QueryAffine isAff_memo [of v s] by auto
  then show ?thesis
    using assms QueryAffine isAff_false_not_cached [of s v]
    by (simp add: classification_def queried_def)
qed

text \<open>
  C10. No path inserts into the Variant set: it is empty after construction and after
  every sequence of queries, so the memo branch that tests it is never taken; and a
  query that answers false leaves the memo entry of the queried (canonical) value as
  it was, so a negative answer is never cached.
\<close>

theorem variant_set_always_empty:
  assumes "AffineInstructionSet instances varianceMap f threadArguments = Some s0"
  shows "variantValues (run s0 qs) = {} \<and>
         (\<not> fst (answer (run s0 qs) q) \<longrightarrow>
            classification (snd (answer (run s0 qs) q)) (walk (queried q))
              = classification (run s0 qs) (walk (queried q)))"
  using construct_sets(2) [OF assms] run_frame [of s0 qs] answer_false_not_cached
  by simp

theorem variant_set_always_empty_witness:
  "variantValues
     (run exampleStore [QueryAffine (Binary 6 Add tidX (ConstantInt 32 1)),
                        QueryInvariant (Binary 7 Mul tidY blockDim)]) = {} \<and>
   \<not> fst (answer
       (run exampleStore [QueryAffine (Binary 6 Add tidX (ConstantInt 32 1)),
                          QueryInvariant (Binary 7 Mul tidY blockDim)])
       (QueryInvariant tidY)) \<and>
   classification
     (snd (answer
       (run exampleStore [QueryAffine (Binary 6 Add tidX (ConstantInt 32 1)),
                          QueryInvariant (Binary 7 Mul tidY blockDim)])
       (QueryInvariant tidY))) tidY
    = (False, False, False, False)"
proof -
  let ?qs = "[QueryAffine (Binary 6 Add tidX (ConstantInt 32 1)),
              QueryInvariant (Binary 7 Mul tidY blockDim)]"
  have nf: "\<not> fst (answer (run exampleStore ?qs) (QueryInvariant tidY))"
    by (simp add: isThreadInvariant.simps isAffine.simps isBinaryOperatorAffine.simps
        matchesIndexScaling_def constantExprIndex_def getOperand_def exampleStore_def
        tidX_def tidY_def blockDim_def setInvariant_def setAffine_def)
  have c: "classification (run exampleStore ?qs) (walk (queried (QueryInvariant tidY)))
      = (False, False, False, False)"
    by (simp add: isThreadInvariant.simps isAffine.simps isBinaryOperatorAffine.simps
        matchesIndexScaling_def constantExprIndex_def getOperand_def exampleStore_def
        tidX_def tidY_def blockDim_def setInvariant_def setAffine_def
        classification_def queried_def)
  show ?thesis
    using variant_set_always_empty [OF example_construction, of ?qs "QueryInvariant tidY"] nf c
    by (simp add: queried_def tidY_def)
qed

section \<open>Seeding of the ThreadIndex set\<close>

lemma matchesIndexScaling_no_threadIds:
  "threadIds s = {} \<Longrightarrow> \<not> matchesIndexScaling s opc a b"
  by (simp add: matchesIndexScaling_def constantExprIndex_def)

text \<open>
  Modelled from the spec: the count of distinct thread-index components that the
  kernel body references. The producer of \<^verbatim>\<open>threadIdUses\<close> is not in this file; the
  spec describes the field as "a count of how many distinct thread-index components the
  kernel body actually references". A component is referenced when its value is an
  operand of an instruction of the body.
\<close>

fun operands :: "val \<Rightarrow> val list" where
  "operands (Cast i k x) = [x]"
| "operands (Load i p) = [p]"
| "operands (UnaryOther i x) = [x]"
| "operands (Binary i opc a b) = [a, b]"
| "operands v = []"

definition references :: "llvmFunction \<Rightarrow> val \<Rightarrow> bool" where
  "references f v = list_ex (\<lambda>i. v \<in> set (operands i)) (instructions f)"

definition referencedThreadIds :: "llvmFunction \<Rightarrow> threadLocalArgument \<Rightarrow> member list" where
  "referencedThreadIds f ta =
     filter (\<lambda>m. references f (argument ta m)) [threadId_x, threadId_y, threadId_z]"

text \<open>A kernel whose body uses only the y component of the thread index.\<close>

definition exampleFunctionY :: llvmFunction where
  "exampleFunctionY =
     \<lparr>instructions = [Binary 5 Shl tidY (ConstantInt 32 2)],
      moduleGlobals = [0]\<rparr>"

text \<open>
  What the constructor does: when \<^verbatim>\<open>threadIdUses\<close> is 1 the ThreadIndex set is, after
  construction and after any queries, exactly the value of \<^verbatim>\<open>threadId_x\<close>; otherwise it
  is empty, and then no binary node matches the index-scaling idiom.
\<close>

lemma threadIds_after_construction:
  assumes "AffineInstructionSet instances varianceMap f ta = Some s0"
  shows "(threadIdUses ta = 1 \<longrightarrow> threadIds (run s0 qs) = {argument ta threadId_x}) \<and>
         (threadIdUses ta \<noteq> 1 \<longrightarrow>
            threadIds (run s0 qs) = {} \<and> \<not> matchesIndexScaling (run s0 qs) opc a b)"
  using construct_sets(3) [OF assms] run_frame [of s0 qs]
  by (simp add: matchesIndexScaling_no_threadIds)

text \<open>
  C4 fails on the code. The body of the kernel below references only the y component of
  the thread index, so exactly one component is referenced and \<^verbatim>\<open>threadIdUses\<close> is 1.
  The constructor records the value of \<^verbatim>\<open>threadId_x\<close>, which the body does not
  reference, and not the referenced component; the branch is commented
  "only threadIdx.x is used" in the source, which the count alone does not establish.
  As a result the index-scaling idiom on the referenced component is not recognised.
\<close>

theorem referenced_component_not_recorded:
  "referencedThreadIds exampleFunctionY exampleArguments = [threadId_y] \<and>
   threadIdUses exampleArguments = int (length (referencedThreadIds exampleFunctionY exampleArguments)) \<and>
   AffineInstructionSet exampleInstances exampleVarianceMap exampleFunctionY exampleArguments
     = Some exampleStore \<and>
   threadIds exampleStore = {argument exampleArguments threadId_x} \<and>
   threadIds exampleStore \<noteq> {argument exampleArguments threadId_y} \<and>
   isAffine exampleStore (Binary 5 Shl tidY (ConstantInt 32 2)) = (False, exampleStore)"
proof -
  have "isAffine exampleStore (Binary 5 Shl tidY (ConstantInt 32 2)) = (False, exampleStore)"
    by (simp add: isAffine.simps isBinaryOperatorAffine.simps matchesIndexScaling_def
        constantExprIndex_def getOperand_def exampleStore_def tidX_def tidY_def blockDim_def)
  then show ?thesis
    by (simp add: referencedThreadIds_def references_def exampleFunctionY_def
      exampleArguments_def exampleStore_def tidX_def tidY_def tidZ_def
      AffineInstructionSet_def exampleInstances_def exampleVarianceMap_def
      emptyStore_def setInvariant_def blockDim_def)
qed

section \<open>Seeding of the invariant arguments\<close>

lemma terminatorIndex_nth:
  "terminatorIndex ms < length ms \<Longrightarrow> ms ! terminatorIndex ms = ptrThreadDescriptorArray"
  unfolding terminatorIndex_def
  using nth_length_takeWhile [of "\<lambda>m. m \<noteq> ptrThreadDescriptorArray" ms] by simp

text \<open>
  C5 (as the code has it). The seeding loop stops at the first table entry that is
  \<^verbatim>\<open>ptrThreadDescriptorArray\<close>. Every entry before it whose variance flag is false is
  in the Invariant set after construction, and the Invariant set holds nothing but
  those arguments and the module's global variables: the terminating entry and the
  entries after it are never inserted by the loop, whatever their flags.
\<close>

theorem invariant_argument_seeding:
  assumes "AffineInstructionSet instances varianceMap f ta = Some s0"
  shows "terminatorIndex instances < length instances \<and>
         instances ! terminatorIndex instances = ptrThreadDescriptorArray \<and>
         (\<forall>i < terminatorIndex instances.
            \<not> varianceMap ! i \<longrightarrow> argument ta (instances ! i) \<in> invariantValues s0) \<and>
         invariantValues s0 =
           {argument ta (instances ! i) | i. i < terminatorIndex instances \<and> \<not> varianceMap ! i}
           \<union> GlobalVariable ` set (moduleGlobals f)"
  using construct_sets(4,5) [OF assms] terminatorIndex_nth [of instances] by auto

lemma example_terminatorIndex: "terminatorIndex exampleInstances = 4"
  by (simp add: terminatorIndex_def exampleInstances_def)

theorem invariant_argument_seeding_witness:
  "terminatorIndex exampleInstances = 4 \<and>
   exampleInstances ! 4 = ptrThreadDescriptorArray \<and>
   \<not> exampleVarianceMap ! 3 \<and>
   argument exampleArguments (exampleInstances ! 3) \<in> invariantValues exampleStore \<and>
   invariantValues exampleStore = {GlobalVariable 0, blockDim}"
proof -
  have "\<forall>i < terminatorIndex exampleInstances.
      \<not> exampleVarianceMap ! i \<longrightarrow>
      argument exampleArguments (exampleInstances ! i) \<in> invariantValues exampleStore"
    using invariant_argument_seeding [OF example_construction] by blast
  then have "\<not> exampleVarianceMap ! 3 \<longrightarrow>
      argument exampleArguments (exampleInstances ! 3) \<in> invariantValues exampleStore"
    by (simp add: example_terminatorIndex)
  then have "argument exampleArguments (exampleInstances ! 3) \<in> invariantValues exampleStore"
    by (simp add: exampleVarianceMap_def)
  moreover have "exampleInstances ! 4 = ptrThreadDescriptorArray" "\<not> exampleVarianceMap ! 3"
    "invariantValues exampleStore = {GlobalVariable 0, blockDim}"
    by (simp_all add: exampleInstances_def exampleVarianceMap_def exampleStore_def)
  ultimately show ?thesis using example_terminatorIndex by blast
qed

text \<open>
  The claim as stated fails: the table entry of the thread-descriptor pointer is tagged
  constant across threads here, and its value is not in the Invariant set.
\<close>

theorem invariant_argument_seeding_counterexample:
  "AffineInstructionSet exampleInstances exampleVarianceMap exampleFunction exampleArguments
     = Some exampleStore \<and>
   exampleInstances ! 4 = ptrThreadDescriptorArray \<and>
   \<not> exampleVarianceMap ! 4 \<and>
   argument exampleArguments ptrThreadDescriptorArray \<notin> invariantValues exampleStore"
proof (intro conjI)
  show "AffineInstructionSet exampleInstances exampleVarianceMap exampleFunction exampleArguments
     = Some exampleStore" by (rule example_construction)
qed (simp_all add: exampleInstances_def exampleVarianceMap_def
      exampleArguments_def exampleStore_def descriptors_def blockDim_def)

section \<open>Depth under canonicalisation\<close>

lemma walk_decreases: "walk v \<noteq> v \<Longrightarrow> depth (walk v) < depth v"
proof (induction v)
  case (Cast i k x)
  then show ?case using depth_walk [of x] by (auto simp: less_Suc_eq_le split: if_splits)
qed simp_all

section \<open>The index-scaling matcher\<close>

lemma matches_shl_right:
  "threadIds s = {t} \<Longrightarrow> walk t = t \<Longrightarrow>
   matchesIndexScaling s Shl t (ConstantInt w n) \<longleftrightarrow> n = 2"
  by (simp add: matchesIndexScaling_def constantExprIndex_def getOperand_def)

lemma matches_mul_right:
  "threadIds s = {t} \<Longrightarrow> walk t = t \<Longrightarrow>
   matchesIndexScaling s Mul t (ConstantInt w n) \<longleftrightarrow> n = 4"
  by (simp add: matchesIndexScaling_def constantExprIndex_def getOperand_def)

lemma isAff_binary_scaling:
  assumes "uncached s (Binary i opc a b)" and "matchesIndexScaling s opc a b"
  shows "isAffine s (Binary i opc a b)
         = (True, s\<lparr>affineValues := insert (Binary i opc a b) (affineValues s)\<rparr>)"
  using assms isAff_binary [of s "Binary i opc a b" i opc a b]
  by (simp add: isBOA_scaling setAffine_def)

lemma isAff_binary_no_scaling:
  assumes "uncached s (Binary i opc a b)" and "\<not> matchesIndexScaling s opc a b"
    and "opc \<noteq> Add"
  shows "isAffine s (Binary i opc a b) = (False, s)"
  using assms isAff_binary [of s "Binary i opc a b" i opc a b]
  by (simp add: isBOA_notAdd)

lemma isAff_scaling_true:
  assumes "variantValues s = {}" and "matchesIndexScaling s opc a b"
  shows "fst (isAffine s (Binary i opc a b))"
proof (cases "uncached s (Binary i opc a b)")
  case True
  then show ?thesis using isAff_binary_scaling [OF True assms(2)] by simp
next
  case False
  then have "walk (Binary i opc a b) \<in> invariantValues s \<or>
      walk (Binary i opc a b) \<in> affineValues s"
    using assms(1) by (simp add: uncached_def)
  then show ?thesis by (simp only: isAff_memo fst_conv)
qed

section \<open>Invariant values that the affine predicate rejects\<close>

text \<open>
  Unfolding rules for evaluating the model on concrete values.
\<close>

lemmas evaluation_rules =
  isThreadInvariant.simps isAffine.simps isBinaryOperatorAffine.simps
  matchesIndexScaling_def constantExprIndex_def getOperand_def
  setInvariant_def setAffine_def

definition exampleProduct :: val where
  "exampleProduct = Binary 8 Mul blockDim (ConstantInt 32 4)"

text \<open>
  C1 fails on the code. In the store built for the example kernel, the product of the
  seeded invariant argument and a constant is reported thread-invariant (its operands
  are cached, the node is not), and the query \<open>isAffine\<close> that follows answers false.
\<close>

theorem invariant_product_not_affine:
  "isThreadInvariant exampleStore exampleProduct
     = (True, exampleStore\<lparr>invariantValues := {GlobalVariable 0, blockDim, ConstantInt 32 4}\<rparr>) \<and>
   isAffine (exampleStore\<lparr>invariantValues := {GlobalVariable 0, blockDim, ConstantInt 32 4}\<rparr>)
       exampleProduct
     = (False, exampleStore\<lparr>invariantValues := {GlobalVariable 0, blockDim, ConstantInt 32 4}\<rparr>)"
  by (simp add: evaluation_rules exampleProduct_def exampleStore_def blockDim_def tidX_def
      insert_commute)

section \<open>Additive composition\<close>

definition exampleScaled :: val where
  "exampleScaled = Binary 5 Shl tidX (ConstantInt 32 2)"

definition exampleOffset :: val where
  "exampleOffset = Binary 9 Add blockDim (ConstantInt 32 16)"

definition storeAfterPreconditions :: store where
  "storeAfterPreconditions =
     \<lparr>invariantValues = {GlobalVariable 0, blockDim, ConstantInt 32 16},
      affineValues = {exampleScaled}, variantValues = {}, threadIds = {tidX}\<rparr>"

text \<open>
  C3 fails on the code. With \<open>a = tid << 2\<close> and \<open>b = blockDim + 16\<close>, the query
  \<open>isAffine a\<close> answers true and then \<open>isThreadInvariant b\<close> answers true. In the store
  reached, \<open>isAffine (a + b)\<close> answers true, but \<open>isAffine (b + a)\<close> answers false: its first
  test \<open>isAffine b\<close> succeeds and moves \<open>b\<close> into the Affine set, after which
  \<open>isThreadInvariant b\<close> of the second test answers false.
\<close>

theorem additive_composition_order:
  "isAffine exampleStore exampleScaled
     = (True, exampleStore\<lparr>affineValues := {exampleScaled}\<rparr>) \<and>
   isThreadInvariant (exampleStore\<lparr>affineValues := {exampleScaled}\<rparr>) exampleOffset
     = (True, storeAfterPreconditions) \<and>
   fst (isAffine storeAfterPreconditions (Binary 10 Add exampleScaled exampleOffset)) \<and>
   \<not> fst (isAffine storeAfterPreconditions (Binary 11 Add exampleOffset exampleScaled))"
  by (simp add: evaluation_rules exampleScaled_def exampleOffset_def storeAfterPreconditions_def
      exampleStore_def blockDim_def tidX_def insert_commute)

section \<open>Caching of binary nodes by the invariance predicate\<close>

text \<open>
  C6 (as the code has it). Let the canonical value be a binary node that is in none of
  the four sets and whose operands both prove invariant. Then \<open>isThreadInvariant\<close> answers
  true; the Invariant set afterwards is the one left by the two operand queries plus
  the two operands as written (not canonicalised); the binary node itself is not in it;
  the Affine, Variant and ThreadIndex sets are unchanged; nothing leaves the Invariant
  set, and every value that enters it lies strictly below the binary node.
\<close>

theorem binary_invariant_caching:
  assumes "walk v = Binary i opc a b" and "unclassified s (walk v)"
    and "fst (isThreadInvariant s a)"
    and "fst (isThreadInvariant (snd (isThreadInvariant s a)) b)"
  shows "fst (isThreadInvariant s v) \<and>
         invariantValues (snd (isThreadInvariant s v))
           = insert b (insert a
               (invariantValues (snd (isThreadInvariant (snd (isThreadInvariant s a)) b)))) \<and>
         walk v \<notin> invariantValues (snd (isThreadInvariant s v)) \<and>
         affineValues (snd (isThreadInvariant s v)) = affineValues s \<and>
         variantValues (snd (isThreadInvariant s v)) = variantValues s \<and>
         threadIds (snd (isThreadInvariant s v)) = threadIds s \<and>
         invariantValues s \<subseteq> invariantValues (snd (isThreadInvariant s v)) \<and>
         (\<forall>x \<in> invariantValues (snd (isThreadInvariant s v)) - invariantValues s.
            depth x < depth (walk v))"
proof -
  let ?s1 = "snd (isThreadInvariant s a)"
  let ?s2 = "snd (isThreadInvariant ?s1 b)"
  let ?s' = "snd (isThreadInvariant s v)"
  have r: "isThreadInvariant s v = setInvariant b (snd (setInvariant a ?s2))"
    using assms by (simp add: isTI_binary [OF assms(2,1)] Let_def)
  have inv: "invariantValues ?s' = insert b (insert a (invariantValues ?s2))"
    by (simp add: r)
  have da: "depth a < depth (walk v)" and db: "depth b < depth (walk v)"
    using assms(1) by (simp_all add: less_Suc_eq_le)
  have b1: "below (depth (walk v)) 0 s ?s1"
    using below_mono [OF isTI_below [of a 0 s], of "depth (walk v)" 0] da depth_walk [of a]
    by simp
  have b2: "below (depth (walk v)) 0 ?s1 ?s2"
    using below_mono [OF isTI_below [of b 0 ?s1], of "depth (walk v)" 0] db depth_walk [of b]
    by simp
  have b12: "below (depth (walk v)) 0 s ?s2" using b1 b2 by (rule below_trans)
  have new: "\<forall>x \<in> invariantValues ?s' - invariantValues s. depth x < depth (walk v)"
    using b12 da db unfolding inv below_def by auto
  have "walk v \<notin> invariantValues s" using assms(2) by (simp add: unclassified_def)
  then have notin: "walk v \<notin> invariantValues ?s'" using new by auto
  show ?thesis
    using r inv notin new isTI_grows [of s v] by simp
qed

definition exampleNested :: val where
  "exampleNested =
     Binary 8 Mul (Load 20 (Load 21 (GlobalVariable 0)))
                  (Cast 22 IntegerCast (ConstantInt 16 4))"

theorem binary_invariant_caching_witness:
  "isThreadInvariant exampleStore exampleNested
     = (True, exampleStore\<lparr>invariantValues :=
          {GlobalVariable 0, blockDim, Load 21 (GlobalVariable 0),
           Load 20 (Load 21 (GlobalVariable 0)), ConstantInt 16 4,
           Cast 22 IntegerCast (ConstantInt 16 4)}\<rparr>) \<and>
   exampleNested \<notin> invariantValues (snd (isThreadInvariant exampleStore exampleNested))"
proof -
  have h: "walk exampleNested = Binary 8 Mul (Load 20 (Load 21 (GlobalVariable 0)))
                  (Cast 22 IntegerCast (ConstantInt 16 4))"
    "unclassified exampleStore (walk exampleNested)"
    "fst (isThreadInvariant exampleStore (Load 20 (Load 21 (GlobalVariable 0))))"
    "fst (isThreadInvariant
       (snd (isThreadInvariant exampleStore (Load 20 (Load 21 (GlobalVariable 0)))))
       (Cast 22 IntegerCast (ConstantInt 16 4)))"
    by (simp_all add: evaluation_rules exampleNested_def unclassified_def exampleStore_def
        blockDim_def tidX_def)
  have e: "isThreadInvariant exampleStore exampleNested
     = (True, exampleStore\<lparr>invariantValues :=
          {GlobalVariable 0, blockDim, Load 21 (GlobalVariable 0),
           Load 20 (Load 21 (GlobalVariable 0)), ConstantInt 16 4,
           Cast 22 IntegerCast (ConstantInt 16 4)}\<rparr>)"
    by (simp add: evaluation_rules exampleNested_def exampleStore_def blockDim_def tidX_def
        insert_commute)
  from binary_invariant_caching [OF h] have
    "walk exampleNested \<notin> invariantValues (snd (isThreadInvariant exampleStore exampleNested))"
    by blast
  then show ?thesis using e by (simp add: exampleNested_def)
qed

lemma example_offset_affine:
  "isAffine exampleStore exampleOffset
     = (True, exampleStore\<lparr>invariantValues := {GlobalVariable 0, blockDim, ConstantInt 32 16},
                            affineValues := {exampleOffset}\<rparr>)"
  by (simp add: evaluation_rules Let_def exampleOffset_def exampleStore_def blockDim_def tidX_def
      insert_commute)

text \<open>
  The claim as stated fails in two ways. Besides the two operands of \<open>exampleNested\<close>,
  the call inserts the inner load and the constant under the cast, which were in no set
  before. And a binary node that an earlier \<open>isAffine\<close> query has put into the Affine set
  is answered false from the memo, although both of its operands prove invariant.
\<close>

theorem binary_invariant_caching_counterexample:
  "fst (isThreadInvariant exampleStore exampleNested) \<and>
   Load 21 (GlobalVariable 0) \<notin> invariantValues exampleStore \<and>
   Load 21 (GlobalVariable 0)
     \<in> invariantValues (snd (isThreadInvariant exampleStore exampleNested)) \<and>
   Load 21 (GlobalVariable 0) \<noteq> Load 20 (Load 21 (GlobalVariable 0)) \<and>
   Load 21 (GlobalVariable 0) \<noteq> Cast 22 IntegerCast (ConstantInt 16 4) \<and>
   fst (isAffine exampleStore exampleOffset) \<and>
   fst (isThreadInvariant (snd (isAffine exampleStore exampleOffset)) blockDim) \<and>
   fst (isThreadInvariant (snd (isAffine exampleStore exampleOffset)) (ConstantInt 32 16)) \<and>
   fst (isThreadInvariant (snd (isAffine exampleStore exampleOffset)) exampleOffset) = False"
proof -
  have "fst (isThreadInvariant exampleStore exampleNested) \<and>
   Load 21 (GlobalVariable 0) \<notin> invariantValues exampleStore \<and>
   Load 21 (GlobalVariable 0)
     \<in> invariantValues (snd (isThreadInvariant exampleStore exampleNested)) \<and>
   Load 21 (GlobalVariable 0) \<noteq> Load 20 (Load 21 (GlobalVariable 0)) \<and>
   Load 21 (GlobalVariable 0) \<noteq> Cast 22 IntegerCast (ConstantInt 16 4)"
    by (simp add: evaluation_rules exampleNested_def exampleStore_def blockDim_def tidX_def)
  moreover have "fst (isThreadInvariant (snd (isAffine exampleStore exampleOffset)) blockDim)"
    "fst (isThreadInvariant (snd (isAffine exampleStore exampleOffset)) (ConstantInt 32 16))"
    unfolding example_offset_affine snd_conv
    by (simp_all add: isTI_memo_inv blockDim_def)
  moreover have
    "fst (isThreadInvariant (snd (isAffine exampleStore exampleOffset)) exampleOffset) = False"
  proof -
    let ?s = "exampleStore\<lparr>invariantValues := {GlobalVariable 0, blockDim, ConstantInt 32 16},
                            affineValues := {exampleOffset}\<rparr>"
    have "isThreadInvariant ?s exampleOffset = (False, ?s)"
      by (rule isTI_memo_other) (simp_all add: exampleOffset_def blockDim_def)
    then show ?thesis by (simp only: example_offset_affine snd_conv fst_conv)
  qed
  ultimately show ?thesis by (simp add: example_offset_affine)
qed

section \<open>Pairwise disjointness\<close>




section \<open>Repeating a query\<close>

text \<open>
  \<open>invariantIn s v\<close> is the answer of \<open>isThreadInvariant\<close> in the store \<open>s\<close>, computed by
  the same rules without the store updates. It is used to state what the store updates
  preserve.
\<close>

function invariantIn :: "store \<Rightarrow> val \<Rightarrow> bool" where
  "invariantIn s value0 =
    (let v = walk value0 in
     if v \<in> invariantValues s then True
     else if v \<in> affineValues s then False
     else if v \<in> variantValues s then False
     else if v \<in> threadIds s then False
     else if isConstant v then True
     else (case v of
         Cast i k x \<Rightarrow> invariantIn s x
       | Load i p \<Rightarrow> invariantIn s p
       | Binary i opc a b \<Rightarrow> invariantIn s a \<and> invariantIn s b
       | _ \<Rightarrow> False))"
  by pat_completeness auto
termination
  by (relation "measure (\<lambda>(s, v). depth v)")
     (auto simp: less_Suc_eq_le dest!: depth_walk_eq)

declare invariantIn.simps [simp del]

lemma invariantIn_walk: "invariantIn s (walk v) = invariantIn s v"
  by (subst (1 2) invariantIn.simps) (simp add: walk_idem)

lemma invariantIn_memo_inv: "walk v \<in> invariantValues s \<Longrightarrow> invariantIn s v"
  by (subst invariantIn.simps) simp

lemma invariantIn_memo_other:
  "walk v \<notin> invariantValues s \<Longrightarrow>
   walk v \<in> affineValues s \<or> walk v \<in> variantValues s \<or> walk v \<in> threadIds s \<Longrightarrow>
   \<not> invariantIn s v"
  by (subst invariantIn.simps) (auto simp: Let_def)

lemma invariantIn_constant:
  "unclassified s (walk v) \<Longrightarrow> isConstant (walk v) \<Longrightarrow> invariantIn s v"
  by (subst invariantIn.simps) (simp add: unclassified_def)

lemma invariantIn_cast:
  "unclassified s (walk v) \<Longrightarrow> walk v = Cast i k x \<Longrightarrow> invariantIn s v = invariantIn s x"
  by (subst invariantIn.simps) (simp add: unclassified_def)

lemma invariantIn_load:
  "unclassified s (walk v) \<Longrightarrow> walk v = Load i p \<Longrightarrow> invariantIn s v = invariantIn s p"
  by (subst invariantIn.simps) (simp add: unclassified_def)

lemma invariantIn_binary:
  "unclassified s (walk v) \<Longrightarrow> walk v = Binary i opc a b \<Longrightarrow>
   invariantIn s v = (invariantIn s a \<and> invariantIn s b)"
  by (subst invariantIn.simps) (simp add: unclassified_def)

lemma invariantIn_unrecognised:
  "unclassified s (walk v) \<Longrightarrow> unrecognised (walk v) \<Longrightarrow> \<not> invariantIn s v"
  by (subst invariantIn.simps) (cases "walk v"; simp add: unclassified_def)

lemma invariantIn_induct [case_names memoInv memoOther isConst isCast isLoad isBinary isUnrec]:
  assumes "\<And>v. walk v \<in> invariantValues s \<Longrightarrow> P v"
    and "\<And>v. walk v \<notin> invariantValues s \<Longrightarrow>
           walk v \<in> affineValues s \<or> walk v \<in> variantValues s \<or> walk v \<in> threadIds s \<Longrightarrow> P v"
    and "\<And>v. unclassified s (walk v) \<Longrightarrow> isConstant (walk v) \<Longrightarrow> P v"
    and "\<And>v i k x. unclassified s (walk v) \<Longrightarrow> walk v = Cast i k x \<Longrightarrow> P x \<Longrightarrow> P v"
    and "\<And>v i p. unclassified s (walk v) \<Longrightarrow> walk v = Load i p \<Longrightarrow> P p \<Longrightarrow> P v"
    and "\<And>v i opc a b. unclassified s (walk v) \<Longrightarrow> walk v = Binary i opc a b \<Longrightarrow>
           P a \<Longrightarrow> P b \<Longrightarrow> P v"
    and "\<And>v. unclassified s (walk v) \<Longrightarrow> unrecognised (walk v) \<Longrightarrow> P v"
  shows "P v"
proof (induction "depth v" arbitrary: v rule: less_induct)
  case less
  show ?case
  proof (cases "unclassified s (walk v)")
    case False
    then show ?thesis using assms(1,2) by (auto simp: unclassified_def)
  next
    case u: True
    show ?thesis
    proof (cases "walk v")
      case (Cast i k x)
      then show ?thesis using u less [of x] assms(4) depth_walk_eq(1) [of i k x v] by simp
    next
      case (Load i p)
      then show ?thesis using u less [of p] assms(5) depth_walk_eq(2) [of i p v] by simp
    next
      case (Binary i opc a b)
      then show ?thesis
        using u less [of a] less [of b] assms(6) depth_walk_eq(3) [of i opc a b v] by simp
    qed (use u assms(3,7) in auto)
  qed
qed

text \<open>
  A sound extension adds to \<open>Invariant\<close> only values that are invariant in the
  smaller store, and changes no other set.
\<close>

definition soundExtension :: "store \<Rightarrow> store \<Rightarrow> bool" where
  "soundExtension s s' \<longleftrightarrow>
     affineValues s' = affineValues s \<and> variantValues s' = variantValues s \<and>
     threadIds s' = threadIds s \<and> invariantValues s \<subseteq> invariantValues s' \<and>
     (\<forall>x \<in> invariantValues s' - invariantValues s. invariantIn s x)"

lemma soundExtension_refl [simp]: "soundExtension s s"
  by (simp add: soundExtension_def)

lemma invariantIn_stable:
  assumes "soundExtension s s'"
  shows "invariantIn s' v = invariantIn s v"
proof (induction v rule: invariantIn_induct [where s = s])
  case (memoInv v)
  then have "walk v \<in> invariantValues s'" using assms by (auto simp: soundExtension_def)
  then show ?case using memoInv by (simp add: invariantIn_memo_inv)
next
  case (memoOther v)
  have "\<not> invariantIn s (walk v)" using memoOther by (simp add: invariantIn_walk invariantIn_memo_other)
  then have "walk v \<notin> invariantValues s'"
    using assms memoOther(1) by (auto simp: soundExtension_def)
  then show ?case
    using memoOther assms by (simp add: invariantIn_memo_other soundExtension_def)
next
  case (isConst v)
  show ?case
  proof (cases "walk v \<in> invariantValues s'")
    case True
    then show ?thesis using isConst by (simp add: invariantIn_memo_inv invariantIn_constant)
  next
    case False
    then have "unclassified s' (walk v)"
      using isConst(1) assms by (simp add: unclassified_def soundExtension_def)
    then show ?thesis using isConst by (simp add: invariantIn_constant)
  qed
next
  case (isCast v i k x)
  show ?case
  proof (cases "walk v \<in> invariantValues s'")
    case True
    then have "invariantIn s (walk v)"
      using isCast(1) assms by (auto simp: unclassified_def soundExtension_def)
    then show ?thesis using True by (simp add: invariantIn_memo_inv invariantIn_walk)
  next
    case False
    then have "unclassified s' (walk v)"
      using isCast(1) assms by (simp add: unclassified_def soundExtension_def)
    then show ?thesis using isCast by (simp add: invariantIn_cast)
  qed
next
  case (isLoad v i p)
  show ?case
  proof (cases "walk v \<in> invariantValues s'")
    case True
    then have "invariantIn s (walk v)"
      using isLoad(1) assms by (auto simp: unclassified_def soundExtension_def)
    then show ?thesis using True by (simp add: invariantIn_memo_inv invariantIn_walk)
  next
    case False
    then have "unclassified s' (walk v)"
      using isLoad(1) assms by (simp add: unclassified_def soundExtension_def)
    then show ?thesis using isLoad by (simp add: invariantIn_load)
  qed
next
  case (isBinary v i opc a b)
  show ?case
  proof (cases "walk v \<in> invariantValues s'")
    case True
    then have "invariantIn s (walk v)"
      using isBinary(1) assms by (auto simp: unclassified_def soundExtension_def)
    then show ?thesis using True by (simp add: invariantIn_memo_inv invariantIn_walk)
  next
    case False
    then have "unclassified s' (walk v)"
      using isBinary(1) assms by (simp add: unclassified_def soundExtension_def)
    then show ?thesis using isBinary by (simp add: invariantIn_binary)
  qed
next
  case (isUnrec v)
  have n: "\<not> invariantIn s (walk v)" using isUnrec by (simp add: invariantIn_walk invariantIn_unrecognised)
  then have "walk v \<notin> invariantValues s'"
    using assms isUnrec(1) by (auto simp: soundExtension_def unclassified_def)
  then have "unclassified s' (walk v)"
    using isUnrec(1) assms by (simp add: unclassified_def soundExtension_def)
  then show ?case using isUnrec by (simp add: invariantIn_unrecognised)
qed

lemma soundExtension_trans:
  assumes "soundExtension s s1" and "soundExtension s1 s2"
  shows "soundExtension s s2"
proof -
  have "invariantIn s x" if "x \<in> invariantValues s2 - invariantValues s" for x
  proof (cases "x \<in> invariantValues s1")
    case True
    then show ?thesis using that assms(1) by (simp add: soundExtension_def)
  next
    case False
    then have "invariantIn s1 x" using that assms(2) by (simp add: soundExtension_def)
    then show ?thesis using invariantIn_stable [OF assms(1)] by simp
  qed
  then show ?thesis using assms unfolding soundExtension_def by auto
qed

lemma soundExtension_setInvariant:
  "soundExtension s s' \<Longrightarrow> invariantIn s x \<Longrightarrow> soundExtension s (snd (setInvariant x s'))"
  unfolding soundExtension_def by auto

lemma setInvariant_fst: "fst (setInvariant v s)"
  by (simp add: setInvariant_def)

lemma isTI_sound:
  "fst (isThreadInvariant s v) = invariantIn s v \<and>
   soundExtension s (snd (isThreadInvariant s v))"
proof (induction s v rule: isTI_induct)
  case (memoInv s v)
  then show ?case by (simp add: isTI_memo_inv invariantIn_memo_inv)
next
  case (memoOther s v)
  then show ?case by (simp add: isTI_memo_other invariantIn_memo_other)
next
  case (isConst s v)
  have "invariantIn s (walk v)" using isConst by (simp add: invariantIn_walk invariantIn_constant)
  then show ?case
    using isConst by (simp add: isTI_constant invariantIn_constant soundExtension_setInvariant)
next
  case (isCast s v i k x)
  have "invariantIn s (walk v) = invariantIn s x"
    by (simp only: invariantIn_walk invariantIn_cast [OF isCast(1,2)])
  then show ?case
    using isCast
    by (simp add: isTI_cast [OF isCast(1,2)] invariantIn_cast [OF isCast(1,2)]
        soundExtension_setInvariant)
next
  case (isLoad s v i p)
  have "invariantIn s (walk v) = invariantIn s p"
    by (simp only: invariantIn_walk invariantIn_load [OF isLoad(1,2)])
  then show ?case
    using isLoad
    by (simp add: isTI_load [OF isLoad(1,2)] invariantIn_load [OF isLoad(1,2)]
        soundExtension_setInvariant)
next
  case (isBinary s v i opc a b)
  let ?s1 = "snd (isThreadInvariant s a)"
  let ?s2 = "snd (isThreadInvariant ?s1 b)"
  have e1: "soundExtension s ?s1" and r0: "fst (isThreadInvariant s a) = invariantIn s a"
    using isBinary(3) by simp_all
  have e2: "soundExtension ?s1 ?s2" and r1: "fst (isThreadInvariant ?s1 b) = invariantIn s b"
    using isBinary(4) invariantIn_stable [OF e1] by simp_all
  have e12: "soundExtension s ?s2" using e1 e2 by (rule soundExtension_trans)
  show ?case
  proof (cases "invariantIn s a \<and> invariantIn s b")
    case True
    have eq: "isThreadInvariant s v = setInvariant b (snd (setInvariant a ?s2))"
      using True r0 r1 by (simp add: isTI_binary [OF isBinary(1,2)] Let_def)
    have "soundExtension s (snd (setInvariant b (snd (setInvariant a ?s2))))"
      using soundExtension_setInvariant [OF soundExtension_setInvariant [OF e12, of a], of b] True
      by blast
    then have "soundExtension s (snd (isThreadInvariant s v))" by (simp only: eq)
    moreover have "fst (isThreadInvariant s v) = invariantIn s v"
      using True by (simp add: eq invariantIn_binary [OF isBinary(1,2)])
    ultimately show ?thesis by blast
  next
    case False
    then show ?thesis
      using e12 r0 r1
      by (auto simp: isTI_binary [OF isBinary(1,2)] Let_def invariantIn_binary [OF isBinary(1,2)])
  qed
next
  case (isUnrec s v)
  then show ?case by (simp add: isTI_unrecognised invariantIn_unrecognised)
qed

lemma isTI_answer: "fst (isThreadInvariant s v) = invariantIn s v"
  using isTI_sound by blast

lemma isTI_soundExtension: "soundExtension s (snd (isThreadInvariant s v))"
  using isTI_sound by blast

lemma store_insert_absorb:
  "a \<in> invariantValues s \<Longrightarrow> snd (setInvariant a s) = s"
  by (simp add: setInvariant_def insert_absorb)

text \<open>
  In any sound extension of the store a query left behind, the same query changes
  nothing.
\<close>

lemma isTI_repeat_state:
  "soundExtension (snd (isThreadInvariant s v)) s' \<Longrightarrow> snd (isThreadInvariant s' v) = s'"
proof (induction s v arbitrary: s' rule: isTI_induct)
  case (memoInv s v)
  then have "walk v \<in> invariantValues s'"
    by (auto simp: isTI_memo_inv soundExtension_def)
  then show ?case by (simp add: isTI_memo_inv)
next
  case (memoOther s v)
  then have "walk v \<in> affineValues s' \<or> walk v \<in> variantValues s' \<or> walk v \<in> threadIds s'"
    by (auto simp: isTI_memo_other soundExtension_def)
  then show ?case
    by (cases "walk v \<in> invariantValues s'") (simp_all add: isTI_memo_inv isTI_memo_other)
next
  case (isConst s v)
  then have "walk v \<in> invariantValues s'"
    by (auto simp: isTI_constant soundExtension_def)
  then show ?case by (simp add: isTI_memo_inv)
next
  case (isCast s v i k x)
  let ?s1 = "snd (isThreadInvariant s x)"
  show ?case
  proof (cases "walk v \<in> invariantValues s'")
    case True
    then show ?thesis by (simp add: isTI_memo_inv)
  next
    case False
    have f: "\<not> fst (isThreadInvariant s x)" and e: "soundExtension ?s1 s'"
      using isCast(4) False
      by (auto simp: isTI_cast [OF isCast(1,2)] soundExtension_def split: if_splits)
    have u: "unclassified s' (walk v)"
      using False isCast(1) e isTI_frame [of s x] by (simp add: unclassified_def soundExtension_def)
    have "invariantIn s' x = invariantIn s x"
      using invariantIn_stable [OF soundExtension_trans [OF isTI_soundExtension [of s x] e]] .
    then have "\<not> fst (isThreadInvariant s' x)" using f by (simp add: isTI_answer)
    then show ?thesis using isCast(3) [OF e] by (simp add: isTI_cast [OF u isCast(2)])
  qed
next
  case (isLoad s v i p)
  let ?s1 = "snd (isThreadInvariant s p)"
  show ?case
  proof (cases "walk v \<in> invariantValues s'")
    case True
    then show ?thesis by (simp add: isTI_memo_inv)
  next
    case False
    have f: "\<not> fst (isThreadInvariant s p)" and e: "soundExtension ?s1 s'"
      using isLoad(4) False
      by (auto simp: isTI_load [OF isLoad(1,2)] soundExtension_def split: if_splits)
    have u: "unclassified s' (walk v)"
      using False isLoad(1) e isTI_frame [of s p] by (simp add: unclassified_def soundExtension_def)
    have "invariantIn s' p = invariantIn s p"
      using invariantIn_stable [OF soundExtension_trans [OF isTI_soundExtension [of s p] e]] .
    then have "\<not> fst (isThreadInvariant s' p)" using f by (simp add: isTI_answer)
    then show ?thesis using isLoad(3) [OF e] by (simp add: isTI_load [OF u isLoad(2)])
  qed
next
  case (isBinary s v i opc a b)
  let ?s1 = "snd (isThreadInvariant s a)"
  let ?s2 = "snd (isThreadInvariant ?s1 b)"
  let ?sF = "snd (isThreadInvariant s v)"
  show ?case
  proof (cases "walk v \<in> invariantValues s'")
    case True
    then show ?thesis by (simp add: isTI_memo_inv)
  next
    case False
    have e1: "soundExtension s ?s1" by (rule isTI_soundExtension)
    have e2: "soundExtension ?s1 ?s2" by (rule isTI_soundExtension)
    have e12: "soundExtension s ?s2" using e1 e2 by (rule soundExtension_trans)
    have ra: "fst (isThreadInvariant s a) = invariantIn s a" by (rule isTI_answer)
    have rb: "fst (isThreadInvariant ?s1 b) = invariantIn s b"
      using invariantIn_stable [OF e1] by (simp add: isTI_answer)
    have inv2: "invariantIn ?s2 x = invariantIn s x" for x
      using invariantIn_stable [OF e12] .
    have eF: "soundExtension ?s2 ?sF"
    proof (cases "invariantIn s a \<and> invariantIn s b")
      case True
      have eq: "isThreadInvariant s v = setInvariant b (snd (setInvariant a ?s2))"
        using True ra rb by (simp add: isTI_binary [OF isBinary(1,2)] Let_def)
      have "soundExtension ?s2 (snd (setInvariant b (snd (setInvariant a ?s2))))"
        using soundExtension_setInvariant
          [OF soundExtension_setInvariant [OF soundExtension_refl, of ?s2 a], of b] True inv2
        by blast
      then show ?thesis by (simp only: eq)
    next
      case False
      then show ?thesis
        using ra rb by (auto simp: isTI_binary [OF isBinary(1,2)] Let_def)
    qed
    have e2': "soundExtension ?s2 s'" using eF isBinary(5) by (rule soundExtension_trans)
    have e1': "soundExtension ?s1 s'" using e2 e2' by (rule soundExtension_trans)
    have e0': "soundExtension s s'" using e1 e1' by (rule soundExtension_trans)
    have u: "unclassified s' (walk v)"
      using False isBinary(1) e0' by (simp add: unclassified_def soundExtension_def)
    have sa: "snd (isThreadInvariant s' a) = s'" using isBinary(3) [OF e1'] .
    have sb: "snd (isThreadInvariant s' b) = s'" using isBinary(4) [OF e2'] .
    have fa: "fst (isThreadInvariant s' a) = invariantIn s a"
      using invariantIn_stable [OF e0'] by (simp add: isTI_answer)
    have fb: "fst (isThreadInvariant s' b) = invariantIn s b"
      using invariantIn_stable [OF e0'] by (simp add: isTI_answer)
    show ?thesis
    proof (cases "invariantIn s a \<and> invariantIn s b")
      case True
      then have "a \<in> invariantValues ?sF" "b \<in> invariantValues ?sF"
        using ra rb by (simp_all add: isTI_binary [OF isBinary(1,2)] Let_def)
      then have "a \<in> invariantValues s'" "b \<in> invariantValues s'"
        using isBinary(5) by (auto simp: soundExtension_def)
      then have "snd (setInvariant b (snd (setInvariant a s'))) = s'"
        by (simp only: store_insert_absorb)
      then show ?thesis
        using True sa sb fa fb
        by (simp add: isTI_binary [OF u isBinary(2)] Let_def del: setInvariant_sets)
    next
      case False
      then show ?thesis
        using sa sb fa fb by (auto simp: isTI_binary [OF u isBinary(2)] Let_def)
    qed
  qed
next
  case (isUnrec s v)
  then have e: "soundExtension s s'" by (simp add: isTI_unrecognised)
  have "\<not> invariantIn s' v"
    using invariantIn_stable [OF e] isUnrec(1,2) by (simp add: invariantIn_unrecognised)
  then have "walk v \<notin> invariantValues s'" using invariantIn_memo_inv by blast
  then have "unclassified s' (walk v)"
    using isUnrec(1) e by (simp add: unclassified_def soundExtension_def)
  then show ?case using isUnrec(2) by (simp add: isTI_unrecognised)
qed

lemma isTI_idempotent:
  "isThreadInvariant (snd (isThreadInvariant s v)) v = isThreadInvariant s v"
proof -
  let ?s1 = "snd (isThreadInvariant s v)"
  have "fst (isThreadInvariant ?s1 v) = fst (isThreadInvariant s v)"
    using invariantIn_stable [OF isTI_soundExtension [of s v]] by (simp add: isTI_answer)
  moreover have "snd (isThreadInvariant ?s1 v) = ?s1"
    using isTI_repeat_state [of s v ?s1] by simp
  ultimately show ?thesis by (simp add: prod_eq_iff)
qed

text \<open>
  What a query of either kind does to the store: Invariant gains values that are
  invariant in the smaller store, Affine may gain values, Variant and ThreadIndex stay.
\<close>

definition grows :: "store \<Rightarrow> store \<Rightarrow> bool" where
  "grows s s' \<longleftrightarrow>
     extends s s' \<and> (\<forall>x \<in> invariantValues s' - invariantValues s. invariantIn s x)"

lemma grows_refl [simp]: "grows s s"
  by (simp add: grows_def)

lemma grows_unclassified:
  "grows s s' \<Longrightarrow> unclassified s' w \<Longrightarrow> unclassified s w"
  by (auto simp: grows_def extends_def unclassified_def)

text \<open>Growth of the store can only turn invariance answers from true to false.\<close>

lemma invariantIn_antitone:
  assumes "grows s s'"
  shows "invariantIn s' v \<Longrightarrow> invariantIn s v"
proof (induction v rule: invariantIn_induct [where s = s'])
  case (memoInv v)
  show ?case
  proof (cases "walk v \<in> invariantValues s")
    case True
    then show ?thesis by (simp add: invariantIn_memo_inv)
  next
    case False
    then have "invariantIn s (walk v)" using memoInv(1) assms by (simp add: grows_def)
    then show ?thesis by (simp add: invariantIn_walk)
  qed
next
  case (memoOther v)
  then show ?case by (simp add: invariantIn_memo_other)
next
  case (isConst v)
  then show ?case using grows_unclassified [OF assms] by (simp add: invariantIn_constant)
next
  case (isCast v i k x)
  then show ?case using grows_unclassified [OF assms] by (simp add: invariantIn_cast)
next
  case (isLoad v i p)
  then show ?case using grows_unclassified [OF assms] by (simp add: invariantIn_load)
next
  case (isBinary v i opc a b)
  then show ?case using grows_unclassified [OF assms] by (simp add: invariantIn_binary)
next
  case (isUnrec v)
  then show ?case by (simp add: invariantIn_unrecognised)
qed

lemma grows_trans:
  assumes "grows s s1" and "grows s1 s2"
  shows "grows s s2"
proof -
  have "invariantIn s x" if "x \<in> invariantValues s2 - invariantValues s" for x
  proof (cases "x \<in> invariantValues s1")
    case True
    then show ?thesis using that assms(1) by (simp add: grows_def)
  next
    case False
    then have "invariantIn s1 x" using that assms(2) by (simp add: grows_def)
    then show ?thesis using invariantIn_antitone [OF assms(1)] by simp
  qed
  moreover have "extends s s2" using assms by (auto simp: grows_def intro: extends_trans)
  ultimately show ?thesis by (simp add: grows_def)
qed

lemma soundExtension_grows: "soundExtension s s' \<Longrightarrow> grows s s'"
  by (auto simp: soundExtension_def grows_def extends_def)

lemma isTI_grows_store: "grows s (snd (isThreadInvariant s v))"
  using isTI_soundExtension by (rule soundExtension_grows)

lemma grows_setAffine: "grows s (snd (setAffine x s))"
  by (simp add: grows_def)

lemma aAI_grows:
  assumes "grows s (snd (isAffine s x))"
  shows "grows s (snd (affineAndInvariant s x y))"
  using assms isTI_grows_store [of "snd (isAffine s x)" y]
  by (auto simp: affineAndInvariant_def intro: grows_trans)

lemma isAff_grows_store: "grows s (snd (isAffine s v))"
proof (induction s v rule: isAff_induct)
  case (add s v i a b)
  let ?p1 = "affineAndInvariant s a b"
  let ?p2 = "affineAndInvariant (snd ?p1) b a"
  have p1: "grows s (snd ?p1)" using add(4) by (rule aAI_grows)
  have p2: "grows s (snd ?p2)" if "\<not> fst ?p1"
    using add(5) [OF that] p1 by (blast intro: aAI_grows grows_trans)
  have "isAffine s v = isBinaryOperatorAffine s i Add a b"
    using add(1,2) by (rule isAff_binary)
  then show ?case
    using p1 p2 add(3) grows_setAffine
    by (auto simp: isBOA_add intro: grows_trans)
qed (simp_all add: isAff_memo isAff_memo_var isAff_nonbinary isAff_binary isBOA_scaling
    isBOA_notAdd grows_setAffine)

lemma matchesIndexScaling_threadIds:
  "threadIds s' = threadIds s \<Longrightarrow> matchesIndexScaling s' opc a b = matchesIndexScaling s opc a b"
  by (simp add: matchesIndexScaling_def constantExprIndex_def)

text \<open>
  \<open>neverAffine s v\<close>: the canonical value is cached as neither invariant nor affine, and
  either it is in Variant, or it is not invariant and no rule of the matcher can apply:
  for an addition, each operand order is blocked by an operand that is itself never
  affine or by an operand that is not invariant.
\<close>

function neverAffine :: "store \<Rightarrow> val \<Rightarrow> bool" where
  "neverAffine s value0 =
    (let v = walk value0 in
     if v \<in> invariantValues s \<or> v \<in> affineValues s then False
     else if v \<in> variantValues s then True
     else if invariantIn s v then False
     else (case v of
         Binary i opc a b \<Rightarrow>
           if matchesIndexScaling s opc a b then False
           else if opc = Add then
             (neverAffine s a \<or> \<not> invariantIn s b) \<and> (neverAffine s b \<or> \<not> invariantIn s a)
           else True
       | _ \<Rightarrow> True))"
  by pat_completeness auto
termination
  by (relation "measure (\<lambda>(s, v). depth v)")
     (auto simp: less_Suc_eq_le dest!: depth_walk_eq)

declare neverAffine.simps [simp del]

lemma nA_walk: "neverAffine s (walk v) = neverAffine s v"
  by (subst (1 2) neverAffine.simps) (simp add: walk_idem)

lemma nA_memo:
  "walk v \<in> invariantValues s \<or> walk v \<in> affineValues s \<Longrightarrow> \<not> neverAffine s v"
  by (subst neverAffine.simps) (auto simp: Let_def)

lemma nA_memo_var:
  "walk v \<notin> invariantValues s \<Longrightarrow> walk v \<notin> affineValues s \<Longrightarrow>
   walk v \<in> variantValues s \<Longrightarrow> neverAffine s v"
  by (subst neverAffine.simps) (auto simp: Let_def)

lemma nA_not_invariant: "neverAffine s v \<Longrightarrow> \<not> invariantIn s v"
proof
  assume n: "neverAffine s v" and i: "invariantIn s v"
  have m: "walk v \<notin> invariantValues s" "walk v \<notin> affineValues s"
    using n nA_memo by blast+
  have "walk v \<notin> variantValues s" using i m invariantIn_memo_other by blast
  then show False
    using n i m by (subst (asm) neverAffine.simps) (simp add: Let_def invariantIn_walk)
qed

lemma nA_nonbinary:
  "uncached s (walk v) \<Longrightarrow> \<not> isBinaryOperator (walk v) \<Longrightarrow>
   neverAffine s v = (\<not> invariantIn s v)"
  using invariantIn_walk [of s v]
  by (subst neverAffine.simps) (cases "walk v"; simp add: uncached_def)

lemma nA_scaling:
  "uncached s (walk v) \<Longrightarrow> walk v = Binary i opc a b \<Longrightarrow> matchesIndexScaling s opc a b \<Longrightarrow>
   \<not> neverAffine s v"
  by (subst neverAffine.simps) (simp add: uncached_def)

lemma nA_notAdd:
  "uncached s (walk v) \<Longrightarrow> walk v = Binary i opc a b \<Longrightarrow> \<not> matchesIndexScaling s opc a b \<Longrightarrow>
   opc \<noteq> Add \<Longrightarrow> neverAffine s v = (\<not> invariantIn s v)"
  using invariantIn_walk [of s v]
  by (subst neverAffine.simps) (simp add: uncached_def)

lemma nA_add:
  "uncached s (walk v) \<Longrightarrow> walk v = Binary i Add a b \<Longrightarrow> \<not> matchesIndexScaling s Add a b \<Longrightarrow>
   neverAffine s v =
     (\<not> invariantIn s v \<and> (neverAffine s a \<or> \<not> invariantIn s b) \<and>
      (neverAffine s b \<or> \<not> invariantIn s a))"
  using invariantIn_walk [of s v]
  by (subst neverAffine.simps) (simp add: uncached_def)

lemma affine_cases_induct [case_names memo memoVar nonBinary scaling notAdd add]:
  assumes "\<And>v. walk v \<in> invariantValues s \<or> walk v \<in> affineValues s \<Longrightarrow> P v"
    and "\<And>v. walk v \<notin> invariantValues s \<Longrightarrow> walk v \<notin> affineValues s \<Longrightarrow>
           walk v \<in> variantValues s \<Longrightarrow> P v"
    and "\<And>v. uncached s (walk v) \<Longrightarrow> \<not> isBinaryOperator (walk v) \<Longrightarrow> P v"
    and "\<And>v i opc a b. uncached s (walk v) \<Longrightarrow> walk v = Binary i opc a b \<Longrightarrow>
           matchesIndexScaling s opc a b \<Longrightarrow> P v"
    and "\<And>v i opc a b. uncached s (walk v) \<Longrightarrow> walk v = Binary i opc a b \<Longrightarrow>
           \<not> matchesIndexScaling s opc a b \<Longrightarrow> opc \<noteq> Add \<Longrightarrow> P v"
    and "\<And>v i a b. uncached s (walk v) \<Longrightarrow> walk v = Binary i Add a b \<Longrightarrow>
           \<not> matchesIndexScaling s Add a b \<Longrightarrow> P a \<Longrightarrow> P b \<Longrightarrow> P v"
  shows "P v"
proof (induction "depth v" arbitrary: v rule: less_induct)
  case less
  show ?case
  proof (cases "uncached s (walk v)")
    case False
    then show ?thesis using assms(1,2) by (auto simp: uncached_def)
  next
    case u: True
    show ?thesis
    proof (cases "walk v")
      case (Binary i opc a b)
      show ?thesis
      proof (cases "matchesIndexScaling s opc a b")
        case True
        then show ?thesis using assms(4) u Binary by blast
      next
        case nm: False
        show ?thesis
        proof (cases "opc = Add")
          case True
          then show ?thesis
            using assms(6) [of v i a b] u Binary nm less [of a] less [of b]
              depth_walk_eq(3) [of i opc a b v] by simp
        next
          case False
          then show ?thesis using assms(5) u Binary nm by blast
        qed
      qed
    qed (use u assms(3) in auto)
  qed
qed

lemma grows_invariant_new:
  "grows s s' \<Longrightarrow> \<not> invariantIn s v \<Longrightarrow> walk v \<notin> invariantValues s'"
  using invariantIn_antitone [of s s' v] invariantIn_memo_inv [of v s'] by blast

lemma nA_preserved:
  assumes "grows s s'" and "\<And>u. neverAffine s u \<Longrightarrow> walk u \<notin> affineValues s'"
  shows "neverAffine s u \<Longrightarrow> neverAffine s' u"
proof (induction u rule: affine_cases_induct [where s = s])
  case (memo v)
  then show ?case using nA_memo by blast
next
  case (memoVar v)
  have "\<not> invariantIn s v" using memoVar(1,3) by (simp add: invariantIn_memo_other)
  then have "walk v \<notin> invariantValues s'" using grows_invariant_new [OF assms(1)] by blast
  moreover have "walk v \<notin> affineValues s'" using memoVar(4) by (rule assms(2))
  moreover have "walk v \<in> variantValues s'"
    using memoVar(3) assms(1) by (simp add: grows_def extends_def)
  ultimately show ?case by (rule nA_memo_var)
next
  case (nonBinary v)
  have ni: "\<not> invariantIn s v" using nonBinary(3) by (rule nA_not_invariant)
  have "uncached s' (walk v)"
    using grows_invariant_new [OF assms(1) ni] assms(2) [OF nonBinary(3)] nonBinary(1) assms(1)
    by (simp add: uncached_def grows_def extends_def)
  then show ?case
    using nonBinary(2) ni invariantIn_antitone [OF assms(1), of v] by (auto simp: nA_nonbinary)
next
  case (scaling v i opc a b)
  then show ?case using nA_scaling by blast
next
  case (notAdd v i opc a b)
  have ni: "\<not> invariantIn s v" using notAdd(5) by (rule nA_not_invariant)
  have u: "uncached s' (walk v)"
    using grows_invariant_new [OF assms(1) ni] assms(2) [OF notAdd(5)] notAdd(1) assms(1)
    by (simp add: uncached_def grows_def extends_def)
  have m: "\<not> matchesIndexScaling s' opc a b"
    using notAdd(3) assms(1) matchesIndexScaling_threadIds [of s' s]
    by (simp add: grows_def extends_def)
  show ?case
    using ni invariantIn_antitone [OF assms(1), of v] by (auto simp: nA_notAdd [OF u notAdd(2) m notAdd(4)])
next
  case (add v i a b)
  have ni: "\<not> invariantIn s v" using add(6) by (rule nA_not_invariant)
  have u: "uncached s' (walk v)"
    using grows_invariant_new [OF assms(1) ni] assms(2) [OF add(6)] add(1) assms(1)
    by (simp add: uncached_def grows_def extends_def)
  have m: "\<not> matchesIndexScaling s' Add a b"
    using add(3) assms(1) matchesIndexScaling_threadIds [of s' s]
    by (simp add: grows_def extends_def)
  have old: "(neverAffine s a \<or> \<not> invariantIn s b) \<and> (neverAffine s b \<or> \<not> invariantIn s a)"
    using add(6) by (simp add: nA_add [OF add(1,2,3)])
  have "(neverAffine s' a \<or> \<not> invariantIn s' b) \<and> (neverAffine s' b \<or> \<not> invariantIn s' a)"
    using old add(4,5) invariantIn_antitone [OF assms(1)] by blast
  then show ?case
    using ni invariantIn_antitone [OF assms(1), of v] by (auto simp: nA_add [OF u add(2) m])
qed

lemma nA_isTI: "neverAffine s u \<Longrightarrow> neverAffine (snd (isThreadInvariant s v)) u"
proof (rule nA_preserved [where s = s])
  show "grows s (snd (isThreadInvariant s v))" by (rule isTI_grows_store)
  show "walk u \<notin> affineValues (snd (isThreadInvariant s v))" if "neverAffine s u" for u
    using that nA_memo [of u s] by auto
qed

lemma nA_setAffine:
  assumes "\<not> neverAffine s x" and "neverAffine s u"
  shows "neverAffine (snd (setAffine x s)) u"
  using assms(2)
proof (rule nA_preserved [where s = s, rotated 2])
  show "grows s (snd (setAffine x s))" by (rule grows_setAffine)
  show "walk u \<notin> affineValues (snd (setAffine x s))" if "neverAffine s u" for u
  proof -
    have "neverAffine s (walk u)" using that by (simp add: nA_walk)
    then have "walk u \<noteq> x" using assms(1) by blast
    then show ?thesis using that nA_memo [of u s] by auto
  qed
qed

lemma aAI_neverAffine_pres:
  assumes "\<And>u. neverAffine s u \<Longrightarrow> neverAffine (snd (isAffine s x)) u"
  shows "neverAffine s u \<Longrightarrow> neverAffine (snd (affineAndInvariant s x y)) u"
  using assms nA_isTI by (simp add: affineAndInvariant_def)

lemma aAI_neverAffine_blocked:
  assumes "neverAffine s x \<longrightarrow> \<not> fst (isAffine s x)"
    and "neverAffine s x \<or> \<not> invariantIn s y"
  shows "\<not> fst (affineAndInvariant s x y)"
proof (cases "fst (isAffine s x)")
  case True
  then have "\<not> invariantIn s y" using assms by blast
  then have "\<not> invariantIn (snd (isAffine s x)) y"
    using invariantIn_antitone [OF isAff_grows_store [of s x]] by blast
  then show ?thesis using True by (simp add: affineAndInvariant_def isTI_answer)
next
  case False
  then show ?thesis by (simp add: affineAndInvariant_def)
qed

lemma aAI_true:
  assumes "fst (affineAndInvariant s x y)"
  shows "\<not> neverAffine (snd (affineAndInvariant s x y)) x \<and>
         invariantIn (snd (affineAndInvariant s x y)) y"
proof -
  let ?s1 = "snd (isAffine s x)"
  have t: "fst (isAffine s x)" and i: "fst (isThreadInvariant ?s1 y)"
    and e: "affineAndInvariant s x y = isThreadInvariant ?s1 y"
    using assms by (auto simp: affineAndInvariant_def split: if_splits)
  let ?s2 = "snd (isThreadInvariant ?s1 y)"
  have "walk x \<in> invariantValues ?s1 \<or> walk x \<in> affineValues ?s1"
    using t by (rule isAff_true_cached)
  then have "walk x \<in> invariantValues ?s2 \<or> walk x \<in> affineValues ?s2"
    using isTI_grows [of ?s1 y] by auto
  then have "\<not> neverAffine ?s2 x" by (rule nA_memo)
  moreover have "invariantIn ?s2 y"
    using i invariantIn_stable [OF isTI_soundExtension [of ?s1 y]] by (simp add: isTI_answer)
  ultimately show ?thesis by (simp add: e)
qed

text \<open>
  A value that is never affine in a store is answered false by \<open>isAffine\<close>, and stays
  never affine in the store the query leaves behind, whatever value was queried.
\<close>

lemma isAff_neverAffine:
  "(neverAffine s v \<longrightarrow> \<not> fst (isAffine s v)) \<and>
   (\<forall>u. neverAffine s u \<longrightarrow> neverAffine (snd (isAffine s v)) u)"
proof (induction s v rule: isAff_induct)
  case (memo s v)
  then show ?case using nA_memo [of v s] by (simp add: isAff_memo)
next
  case (memoVar s v)
  then show ?case by (simp add: isAff_memo_var)
next
  case (nonBinary s v)
  then show ?case by (simp add: isAff_nonbinary)
next
  case (scaling s v i opc a b)
  have eq: "isAffine s v = setAffine (walk v) s"
    using scaling by (simp add: isAff_binary isBOA_scaling)
  have n: "\<not> neverAffine s (walk v)" using nA_scaling [OF scaling] by (simp add: nA_walk)
  show ?case using n nA_setAffine [OF n] by (simp add: eq nA_walk)
next
  case (notAdd s v i opc a b)
  then show ?case by (simp add: isAff_binary isBOA_notAdd)
next
  case (add s v i a b)
  let ?w = "Binary i Add a b"
  let ?p1 = "affineAndInvariant s a b"
  let ?p2 = "affineAndInvariant (snd ?p1) b a"
  have eq: "isAffine s v = isBinaryOperatorAffine s i Add a b"
    using add(1,2) by (rule isAff_binary)
  have iha: "neverAffine s a \<longrightarrow> \<not> fst (isAffine s a)"
    "\<And>u. neverAffine s u \<Longrightarrow> neverAffine (snd (isAffine s a)) u"
    using add(4) by blast+
  have p1: "\<And>u. neverAffine s u \<Longrightarrow> neverAffine (snd ?p1) u"
    "neverAffine s a \<or> \<not> invariantIn s b \<Longrightarrow> \<not> fst ?p1"
    "fst ?p1 \<Longrightarrow> \<not> neverAffine (snd ?p1) a \<and> invariantIn (snd ?p1) b"
    using aAI_neverAffine_pres [where s = s and x = a and y = b] iha(2)
      aAI_neverAffine_blocked [where s = s and x = a and y = b] iha(1)
      aAI_true [where s = s and x = a and y = b]
    by blast+
  have nw: "\<not> neverAffine s' ?w"
    if m: "threadIds s' = threadIds s" and v: "variantValues s' = variantValues s"
      and f: "\<not> neverAffine s' x \<and> invariantIn s' y" and xy: "(x = a \<and> y = b) \<or> (x = b \<and> y = a)"
    for s' x y
  proof (cases "?w \<in> invariantValues s' \<or> ?w \<in> affineValues s'")
    case True
    then show ?thesis using nA_memo [of ?w s'] by simp
  next
    case False
    then have u: "uncached s' (walk ?w)"
      using add(1,2) v by (simp add: uncached_def)
    have nm: "\<not> matchesIndexScaling s' Add a b"
      using add(3) matchesIndexScaling_threadIds [OF m] by simp
    show ?thesis using f xy nA_add [OF u _ nm, of i] by auto
  qed
  have fr1: "threadIds (snd ?p1) = threadIds s" "variantValues (snd ?p1) = variantValues s"
    using aAI_extends [OF isAff_extends, of s a b] by (simp_all add: extends_def)
  show ?case
  proof (cases "fst ?p1")
    case t1: True
    have r: "isAffine s v = setAffine ?w (snd ?p1)"
      using t1 by (simp add: eq isBOA_add [OF add(3)])
    have blocked: "\<not> (neverAffine s a \<or> \<not> invariantIn s b)" using p1(2) t1 by blast
    have 1: "\<not> neverAffine s v"
      using blocked by (simp add: nA_add [OF add(1,2,3)])
    have n: "\<not> neverAffine (snd ?p1) ?w"
      using nw [OF fr1, of a b] p1(3) [OF t1] by simp
    have 2: "neverAffine (snd (isAffine s v)) u" if "neverAffine s u" for u
      using nA_setAffine [OF n p1(1) [OF that]] by (simp add: r)
    show ?thesis using 1 2 by blast
  next
    case f1: False
    have ihb: "neverAffine (snd ?p1) b \<longrightarrow> \<not> fst (isAffine (snd ?p1) b)"
      "\<And>u. neverAffine (snd ?p1) u \<Longrightarrow> neverAffine (snd (isAffine (snd ?p1) b)) u"
      using add(5) [OF f1] by blast+
    have p2: "\<And>u. neverAffine (snd ?p1) u \<Longrightarrow> neverAffine (snd ?p2) u"
      "neverAffine (snd ?p1) b \<or> \<not> invariantIn (snd ?p1) a \<Longrightarrow> \<not> fst ?p2"
      "fst ?p2 \<Longrightarrow> \<not> neverAffine (snd ?p2) b \<and> invariantIn (snd ?p2) a"
      using aAI_neverAffine_pres [where s = "snd ?p1" and x = b and y = a] ihb(2)
        aAI_neverAffine_blocked [where s = "snd ?p1" and x = b and y = a] ihb(1)
        aAI_true [where s = "snd ?p1" and x = b and y = a]
      by blast+
    have fr2: "threadIds (snd ?p2) = threadIds s" "variantValues (snd ?p2) = variantValues s"
      using aAI_extends [OF isAff_extends, of "snd ?p1" b a] fr1 by (simp_all add: extends_def)
    have g1: "grows s (snd ?p1)" using aAI_grows [OF isAff_grows_store] .
    have pres: "neverAffine (snd ?p2) u" if "neverAffine s u" for u
      using p2(1) [OF p1(1) [OF that]] .
    have 1: "\<not> fst ?p2" if "neverAffine s v"
    proof -
      have "neverAffine s b \<or> \<not> invariantIn s a"
        using that by (simp add: nA_add [OF add(1,2,3)])
      then have "neverAffine (snd ?p1) b \<or> \<not> invariantIn (snd ?p1) a"
        using p1(1) invariantIn_antitone [OF g1] by blast
      then show ?thesis by (rule p2(2))
    qed
    show ?thesis
    proof (cases "fst ?p2")
      case t2: True
      have r: "isAffine s v = setAffine ?w (snd ?p2)"
        using f1 t2 by (simp add: eq isBOA_add [OF add(3)])
      have n: "\<not> neverAffine (snd ?p2) ?w"
        using nw [OF fr2, of b a] p2(3) [OF t2] by simp
      have 2: "neverAffine (snd (isAffine s v)) u" if "neverAffine s u" for u
        using nA_setAffine [OF n pres [OF that]] by (simp add: r)
      show ?thesis using 1 t2 2 by blast
    next
      case f2: False
      have r: "isAffine s v = (False, snd ?p2)"
        using f1 f2 by (simp add: eq isBOA_add [OF add(3)])
      show ?thesis using pres by (simp add: r)
    qed
  qed
qed

lemma isAff_neverAffine_false: "neverAffine s v \<Longrightarrow> \<not> fst (isAffine s v)"
  using isAff_neverAffine by blast

lemma isAff_neverAffine_preserved:
  "neverAffine s u \<Longrightarrow> neverAffine (snd (isAffine s v)) u"
  using isAff_neverAffine by blast

lemma aAI_neverAffine_preserved:
  "neverAffine s u \<Longrightarrow> neverAffine (snd (affineAndInvariant s x y)) u"
  using isAff_neverAffine_preserved nA_isTI by (simp add: affineAndInvariant_def)

definition noAddThreadIds :: "store \<Rightarrow> bool" where
  "noAddThreadIds s \<longleftrightarrow> (\<forall>t \<in> threadIds s. \<forall>i a b. t \<noteq> Binary i Add a b)"

lemma extends_antisym: "extends s s' \<Longrightarrow> extends s' s \<Longrightarrow> s' = s"
  by (auto simp: extends_def)

lemma aAI_unchanged:
  assumes "snd (affineAndInvariant s x y) = s"
  shows "snd (isAffine s x) = s"
proof -
  have "extends (snd (isAffine s x)) (snd (affineAndInvariant s x y))"
    using isTI_extends [of "snd (isAffine s x)" y] by (simp add: affineAndInvariant_def)
  then show ?thesis using assms isAff_extends [of s x] extends_antisym by simp
qed

text \<open>
  A query \<open>isAffine\<close> that answers false and changes nothing, on a value that is not
  invariant, was asked about a value that is never affine.
\<close>

lemma isAff_unchanged_neverAffine:
  "isAffine s v = (False, s) \<Longrightarrow> \<not> invariantIn s v \<Longrightarrow> noAddThreadIds s \<Longrightarrow>
   neverAffine s v"
proof (induction s v rule: isAff_induct)
  case (memo s v)
  then show ?case by (simp add: isAff_memo)
next
  case (memoVar s v)
  then show ?case by (simp add: nA_memo_var)
next
  case (nonBinary s v)
  then show ?case by (simp add: nA_nonbinary)
next
  case (scaling s v i opc a b)
  then show ?case by (simp add: isAff_binary isBOA_scaling setAffine_def)
next
  case (notAdd s v i opc a b)
  then show ?case by (simp add: nA_notAdd)
next
  case (add s v i a b)
  let ?p1 = "affineAndInvariant s a b"
  let ?p2 = "affineAndInvariant (snd ?p1) b a"
  have eq: "isAffine s v = isBinaryOperatorAffine s i Add a b"
    using add(1,2) by (rule isAff_binary)
  have f1: "\<not> fst ?p1" and f2: "\<not> fst ?p2" and s2: "snd ?p2 = s"
    using add(6) by (auto simp: eq isBOA_add [OF add(3)] setAffine_def split: if_splits)
  have s1: "snd ?p1 = s"
  proof -
    have "extends s (snd ?p1)" using aAI_extends [OF isAff_extends] .
    moreover have "extends (snd ?p1) (snd ?p2)" using aAI_extends [OF isAff_extends] .
    ultimately show ?thesis using s2 extends_antisym by simp
  qed
  have sa: "snd (isAffine s a) = s" using s1 by (rule aAI_unchanged)
  have sb: "snd (isAffine s b) = s" using s2 s1 aAI_unchanged [of s b a] by simp
  have "walk v \<notin> threadIds s" using add(2,8) by (auto simp: noAddThreadIds_def)
  then have u: "unclassified s (walk v)" using add(1) by (simp add: unclassified_def uncached_def)
  have ni: "\<not> invariantIn s a \<or> \<not> invariantIn s b"
    using add(7) by (simp add: invariantIn_binary [OF u add(2)])
  have c1: "neverAffine s a \<or> \<not> invariantIn s b"
  proof (cases "invariantIn s b")
    case True
    then have "\<not> fst (isAffine s a)"
      using f1 sa by (auto simp: affineAndInvariant_def isTI_answer)
    then have "isAffine s a = (False, s)" using sa by (simp add: prod_eq_iff)
    then show ?thesis using add(4) ni True add(8) by blast
  next
    case False
    then show ?thesis by simp
  qed
  have c2: "neverAffine s b \<or> \<not> invariantIn s a"
  proof (cases "invariantIn s a")
    case True
    then have "\<not> fst (isAffine s b)"
      using f2 sb s1 by (auto simp: affineAndInvariant_def isTI_answer)
    then have "isAffine (snd ?p1) b = (False, snd ?p1)" using sb s1 by (simp add: prod_eq_iff)
    then show ?thesis using add(5) [OF f1] ni True add(8) s1 by simp
  next
    case False
    then show ?thesis by simp
  qed
  show ?case using add(7) c1 c2 by (simp add: nA_add [OF add(1,2,3)])
qed

lemma isAff_true_invariant_memo:
  assumes "fst (isAffine s x)" and "invariantIn (snd (isAffine s x)) x"
  shows "isAffine s x = (True, s)"
proof -
  let ?s1 = "snd (isAffine s x)"
  have "walk x \<in> invariantValues ?s1 \<or> walk x \<in> affineValues ?s1"
    using assms(1) by (rule isAff_true_cached)
  then have "walk x \<in> invariantValues ?s1"
    using assms(2) invariantIn_memo_other [of x ?s1] by blast
  moreover have "\<forall>y \<in> invariantValues ?s1 - invariantValues s. depth y < depth (walk x)"
    using isAff_below [of x s] by (simp add: below_def)
  ultimately have "walk x \<in> invariantValues s" by blast
  then show ?thesis by (simp add: isAff_memo)
qed

lemma noAddThreadIds_extends: "extends s s' \<Longrightarrow> noAddThreadIds s \<Longrightarrow> noAddThreadIds s'"
  by (simp add: noAddThreadIds_def extends_def)

text \<open>
  After a false answer of \<open>isAffine\<close>, either the store is unchanged or the queried
  value is never affine in the store left behind.
\<close>

lemma isAff_false_cases:
  "\<not> fst (isAffine s v) \<Longrightarrow> noAddThreadIds s \<Longrightarrow>
   neverAffine (snd (isAffine s v)) v \<or> snd (isAffine s v) = s"
proof (induction s v rule: isAff_induct)
  case (memo s v)
  then show ?case by (simp add: isAff_memo)
next
  case (memoVar s v)
  then show ?case by (simp add: isAff_memo_var)
next
  case (nonBinary s v)
  then show ?case by (simp add: isAff_nonbinary)
next
  case (scaling s v i opc a b)
  then show ?case by (simp add: isAff_binary isBOA_scaling)
next
  case (notAdd s v i opc a b)
  then show ?case by (simp add: isAff_binary isBOA_notAdd)
next
  case (add s v i a b)
  let ?p1 = "affineAndInvariant s a b"
  let ?s1 = "snd (isAffine s a)"
  let ?s2 = "snd ?p1"
  let ?p2 = "affineAndInvariant ?s2 b a"
  let ?s3 = "snd (isAffine ?s2 b)"
  let ?s' = "snd ?p2"
  have eq: "isAffine s v = isBinaryOperatorAffine s i Add a b"
    using add(1,2) by (rule isAff_binary)
  have f1: "\<not> fst ?p1" and f2: "\<not> fst ?p2" and r: "isAffine s v = (False, ?s')"
    using add(6) by (auto simp: eq isBOA_add [OF add(3)] split: if_splits)
  have n2: "noAddThreadIds ?s2"
    using noAddThreadIds_extends [OF aAI_extends [OF isAff_extends] add(7)] .
  have iha: "neverAffine ?s1 a \<or> ?s1 = s" if "\<not> fst (isAffine s a)"
    using add(4) [OF that add(7)] .
  have ihb: "neverAffine ?s3 b \<or> ?s3 = ?s2" if "\<not> fst (isAffine ?s2 b)"
    using add(5) [OF f1 that n2] .
  have p1_true: "?s2 = snd (isThreadInvariant ?s1 b) \<and> \<not> invariantIn ?s1 b"
    if "fst (isAffine s a)"
    using that f1 by (simp add: affineAndInvariant_def isTI_answer)
  have p1_false: "?s2 = ?s1" if "\<not> fst (isAffine s a)"
    using that by (simp add: affineAndInvariant_def)
  have p2_true: "?s' = snd (isThreadInvariant ?s3 a) \<and> \<not> invariantIn ?s3 a"
    if "fst (isAffine ?s2 b)"
    using that f2 by (simp add: affineAndInvariant_def isTI_answer)
  have p2_false: "?s' = ?s3" if "\<not> fst (isAffine ?s2 b)"
    using that by (simp add: affineAndInvariant_def)
  have g2: "grows ?s2 ?s'" using aAI_grows [OF isAff_grows_store] .
  have pres2: "neverAffine ?s' u" if "neverAffine ?s2 u" for u
    using that by (rule aAI_neverAffine_preserved)
  show ?case
  proof (cases "?s' = s")
    case True
    then show ?thesis by (simp add: r)
  next
    case ne: False
    have c1: "neverAffine ?s' a \<or> \<not> invariantIn ?s' b"
    proof (cases "fst (isAffine s a)")
      case True
      have "\<not> invariantIn ?s2 b"
        using p1_true [OF True] invariantIn_stable [OF isTI_soundExtension [of ?s1 b]] by simp
      then show ?thesis using invariantIn_antitone [OF g2] by blast
    next
      case a0: False
      have s21: "?s2 = ?s1" using p1_false [OF a0] .
      from iha [OF a0] show ?thesis
      proof
        assume "neverAffine ?s1 a"
        then show ?thesis using pres2 s21 by simp
      next
        assume s1: "?s1 = s"
        then have s2: "?s2 = s" using s21 by simp
        show ?thesis
        proof (cases "invariantIn ?s' b")
          case False
          then show ?thesis by simp
        next
          case ib: True
          show ?thesis
          proof (cases "fst (isAffine ?s2 b)")
            case a1: True
            have "invariantIn ?s3 b"
              using ib p2_true [OF a1] invariantIn_stable [OF isTI_soundExtension [of ?s3 a]]
              by simp
            then have "isAffine ?s2 b = (True, ?s2)" using isAff_true_invariant_memo [OF a1] by blast
            then have s3: "?s3 = s" using s2 by simp
            have "isAffine s a = (False, s)" using a0 s1 by (simp add: prod_eq_iff)
            moreover have "\<not> invariantIn s a" using p2_true [OF a1] s3 by simp
            ultimately have "neverAffine s a" using add(7) by (rule isAff_unchanged_neverAffine)
            then have "neverAffine (snd (isThreadInvariant s a)) a" by (rule nA_isTI)
            then show ?thesis using p2_true [OF a1] s3 by simp
          next
            case a1: False
            from ihb [OF a1] show ?thesis
            proof
              assume "neverAffine ?s3 b"
              then have "\<not> invariantIn ?s3 b" by (rule nA_not_invariant)
              then show ?thesis using ib p2_false [OF a1] by simp
            next
              assume "?s3 = ?s2"
              then show ?thesis using ne p2_false [OF a1] s2 by simp
            qed
          qed
        qed
      qed
    qed
    have c2: "neverAffine ?s' b \<or> \<not> invariantIn ?s' a"
    proof (cases "fst (isAffine ?s2 b)")
      case True
      then show ?thesis
        using p2_true [OF True] invariantIn_stable [OF isTI_soundExtension [of ?s3 a]] by simp
    next
      case a1: False
      have s'3: "?s' = ?s3" using p2_false [OF a1] .
      from ihb [OF a1] show ?thesis
      proof
        assume "neverAffine ?s3 b"
        then show ?thesis using s'3 by simp
      next
        assume s32: "?s3 = ?s2"
        show ?thesis
        proof (cases "invariantIn ?s2 a")
          case False
          then show ?thesis using s'3 s32 by simp
        next
          case ia: True
          show ?thesis
          proof (cases "fst (isAffine s a)")
            case a0: True
            have "invariantIn ?s1 a"
              using ia p1_true [OF a0] invariantIn_stable [OF isTI_soundExtension [of ?s1 b]]
              by simp
            then have "isAffine s a = (True, s)" using isAff_true_invariant_memo [OF a0] by blast
            then have s1: "?s1 = s" by simp
            have nb: "\<not> invariantIn ?s2 b"
              using p1_true [OF a0] invariantIn_stable [OF isTI_soundExtension [of ?s1 b]]
              by simp
            have "isAffine ?s2 b = (False, ?s2)" using a1 s32 by (simp add: prod_eq_iff)
            then have "neverAffine ?s2 b" using nb n2 by (rule isAff_unchanged_neverAffine)
            then show ?thesis using s'3 s32 by simp
          next
            case a0: False
            from iha [OF a0] show ?thesis
            proof
              assume "neverAffine ?s1 a"
              then have "\<not> invariantIn ?s1 a" by (rule nA_not_invariant)
              then show ?thesis using ia p1_false [OF a0] by simp
            next
              assume "?s1 = s"
              then show ?thesis using ne s'3 s32 p1_false [OF a0] by simp
            qed
          qed
        qed
      qed
    qed
    have fr: "threadIds ?s' = threadIds s" "variantValues ?s' = variantValues s"
      using isAff_frame [of s v] by (simp_all add: r)
    have nc: "walk v \<notin> invariantValues ?s'" "walk v \<notin> affineValues ?s'"
      using isAff_false_not_cached [OF add(6)] by (simp_all add: r)
    have u: "uncached ?s' (walk v)"
      using nc add(1) fr by (simp add: uncached_def)
    have "walk v \<notin> threadIds ?s'"
      using add(2,7) fr by (auto simp: noAddThreadIds_def)
    then have uc: "unclassified ?s' (walk v)" using u by (simp add: unclassified_def uncached_def)
    have nm: "\<not> matchesIndexScaling ?s' Add a b"
      using add(3) matchesIndexScaling_threadIds [OF fr(1)] by simp
    have "\<not> (invariantIn ?s' a \<and> invariantIn ?s' b)"
      using c1 c2 nA_not_invariant by blast
    then have "\<not> invariantIn ?s' v" by (simp add: invariantIn_binary [OF uc add(2)])
    then have "neverAffine ?s' v" using c1 c2 by (simp add: nA_add [OF u add(2) nm])
    then show ?thesis by (simp add: r)
  qed
qed

lemma isAff_repeat_answer:
  assumes "noAddThreadIds s"
  shows "fst (isAffine (snd (isAffine s v)) v) = fst (isAffine s v)"
proof (cases "fst (isAffine s v)")
  case True
  then show ?thesis using isAff_true_cached [OF True] by (simp add: isAff_memo)
next
  case False
  from isAff_false_cases [OF False assms] show ?thesis
  proof
    assume "neverAffine (snd (isAffine s v)) v"
    then show ?thesis using False isAff_neverAffine_false by simp
  next
    assume "snd (isAffine s v) = s"
    then show ?thesis by simp
  qed
qed

text \<open>
  C8 (as the code has it). Asked twice in succession, \<open>isThreadInvariant\<close> gives the same
  answer and the second call leaves the store exactly as the first call left it, in
  every store. Asked twice in succession, \<open>isAffine\<close> gives the same answer in every store
  whose ThreadIndex set holds no addition node; after a true answer the second call
  changes nothing; after a false answer the second call may classify further values,
  but it only extends the store.
\<close>

theorem repeated_queries:
  "isThreadInvariant (snd (isThreadInvariant s v)) v = isThreadInvariant s v \<and>
   (noAddThreadIds s \<longrightarrow> fst (isAffine (snd (isAffine s v)) v) = fst (isAffine s v)) \<and>
   (fst (isAffine s v) \<longrightarrow> isAffine (snd (isAffine s v)) v = isAffine s v) \<and>
   extends (snd (isAffine s v)) (snd (isAffine (snd (isAffine s v)) v))"
proof -
  have "isAffine (snd (isAffine s v)) v = isAffine s v" if "fst (isAffine s v)"
    using that isAff_true_cached [OF that] by (simp add: isAff_memo prod_eq_iff)
  then show ?thesis
    using isTI_idempotent [of s v] isAff_repeat_answer [of s v]
      isAff_extends [of "snd (isAffine s v)" v]
    by blast
qed

definition exampleInner :: val where
  "exampleInner = Binary 14 Add (ConstantInt 32 4) (ConstantInt 32 4)"

definition exampleTail :: val where
  "exampleTail = Binary 13 Add blockDim (Binary 15 Mul (ConstantInt 32 4) tidY)"

definition exampleSum :: val where
  "exampleSum = Binary 12 Add exampleInner exampleTail"

definition storeAfterSum :: store where
  "storeAfterSum =
     exampleStore\<lparr>invariantValues :=
       {GlobalVariable 0, blockDim, ConstantInt 32 4}\<rparr>"

lemma example_inner_first: "isAffine exampleStore exampleInner = (False, exampleStore)"
  by (simp add: evaluation_rules Let_def exampleTail_def exampleInner_def storeAfterSum_def
      exampleStore_def blockDim_def tidX_def tidY_def insert_commute)

lemma example_tail_first: "isAffine exampleStore exampleTail = (False, storeAfterSum)"
  by (simp add: evaluation_rules Let_def exampleTail_def exampleInner_def storeAfterSum_def
      exampleStore_def blockDim_def tidX_def tidY_def insert_commute)

lemma example_inner_second:
  "isAffine storeAfterSum exampleInner
     = (True, storeAfterSum\<lparr>affineValues := {exampleInner}\<rparr>)"
  by (simp add: evaluation_rules Let_def exampleTail_def exampleInner_def storeAfterSum_def
      exampleStore_def blockDim_def tidX_def tidY_def insert_commute)

lemma example_tail_invariant:
  "isThreadInvariant (storeAfterSum\<lparr>affineValues := {exampleInner}\<rparr>) exampleTail
     = (False, storeAfterSum\<lparr>affineValues := {exampleInner}\<rparr>)"
  by (simp add: evaluation_rules Let_def exampleTail_def exampleInner_def storeAfterSum_def
      exampleStore_def blockDim_def tidX_def tidY_def insert_commute)

lemma example_tail_second:
  "isAffine (storeAfterSum\<lparr>affineValues := {exampleInner}\<rparr>) exampleTail
     = (False, storeAfterSum\<lparr>affineValues := {exampleInner}\<rparr>)"
  by (simp add: evaluation_rules Let_def exampleTail_def exampleInner_def storeAfterSum_def
      exampleStore_def blockDim_def tidX_def tidY_def insert_commute)

lemma example_sum_scaling:
  "\<not> matchesIndexScaling s Add exampleInner exampleTail" if "threadIds s = {tidX}"
  using that
  by (simp add: matchesIndexScaling_def constantExprIndex_def getOperand_def
      exampleInner_def exampleTail_def tidX_def blockDim_def)

lemma example_sum_first: "isAffine exampleStore exampleSum = (False, storeAfterSum)"
proof -
  have "uncached exampleStore (walk exampleSum)"
    by (simp add: uncached_def exampleSum_def exampleStore_def blockDim_def)
  moreover have "walk exampleSum = Binary 12 Add exampleInner exampleTail"
    by (simp add: exampleSum_def)
  ultimately have "isAffine exampleStore exampleSum
      = isBinaryOperatorAffine exampleStore 12 Add exampleInner exampleTail"
    by (rule isAff_binary)
  moreover have "\<not> matchesIndexScaling exampleStore Add exampleInner exampleTail"
    by (rule example_sum_scaling) (simp add: exampleStore_def)
  ultimately show ?thesis
    by (simp add: isBOA_add affineAndInvariant_def example_inner_first example_tail_first)
qed

lemma example_sum_second:
  "isAffine storeAfterSum exampleSum
     = (False, storeAfterSum\<lparr>affineValues := {exampleInner}\<rparr>)"
proof -
  have "uncached storeAfterSum (walk exampleSum)"
    by (simp add: uncached_def exampleSum_def storeAfterSum_def exampleStore_def blockDim_def)
  moreover have "walk exampleSum = Binary 12 Add exampleInner exampleTail"
    by (simp add: exampleSum_def)
  ultimately have "isAffine storeAfterSum exampleSum
      = isBinaryOperatorAffine storeAfterSum 12 Add exampleInner exampleTail"
    by (rule isAff_binary)
  moreover have "\<not> matchesIndexScaling storeAfterSum Add exampleInner exampleTail"
    by (rule example_sum_scaling) (simp add: storeAfterSum_def exampleStore_def)
  ultimately show ?thesis
    by (simp add: isBOA_add affineAndInvariant_def example_inner_second
        example_tail_invariant example_tail_second)
qed

theorem repeated_queries_witness:
  "noAddThreadIds exampleStore \<and>
   isThreadInvariant (snd (isThreadInvariant exampleStore exampleOffset)) exampleOffset
     = isThreadInvariant exampleStore exampleOffset \<and>
   fst (isAffine exampleStore exampleScaled) \<and>
   isAffine (snd (isAffine exampleStore exampleScaled)) exampleScaled
     = isAffine exampleStore exampleScaled \<and>
   fst (isAffine (snd (isAffine exampleStore exampleSum)) exampleSum)
     = fst (isAffine exampleStore exampleSum) \<and>
   extends (snd (isAffine exampleStore exampleSum))
     (snd (isAffine (snd (isAffine exampleStore exampleSum)) exampleSum))"
proof -
  have n: "noAddThreadIds exampleStore"
    by (simp add: noAddThreadIds_def exampleStore_def tidX_def)
  have t: "fst (isAffine exampleStore exampleScaled)"
    by (simp add: evaluation_rules exampleScaled_def exampleStore_def blockDim_def tidX_def)
  show ?thesis
    using n t repeated_queries [of exampleStore exampleOffset]
      repeated_queries [of exampleStore exampleScaled]
      repeated_queries [of exampleStore exampleSum]
    by blast
qed

text \<open>
  The claim as stated fails: the first call \<open>isAffine exampleSum\<close> answers false, but
  on the way it records the constant 4 as invariant and leaves the inner addition
  \<open>4 + 4\<close> in none of the four sets; the second call answers false again and, finding
  the constant recorded, inserts the inner addition into the Affine set.
\<close>

theorem repeated_queries_counterexample:
  "isAffine exampleStore exampleSum = (False, storeAfterSum) \<and>
   classification storeAfterSum exampleInner = (False, False, False, False) \<and>
   fst (isAffine storeAfterSum exampleSum) = False \<and>
   classification (snd (isAffine storeAfterSum exampleSum)) exampleInner
     = (False, True, False, False)"
proof -
  have "classification storeAfterSum exampleInner = (False, False, False, False)"
    by (simp add: classification_def storeAfterSum_def exampleStore_def exampleInner_def
        blockDim_def tidX_def)
  moreover have "classification (storeAfterSum\<lparr>affineValues := {exampleInner}\<rparr>) exampleInner
      = (False, True, False, False)"
    by (simp add: classification_def storeAfterSum_def exampleStore_def exampleInner_def
        blockDim_def tidX_def)
  ultimately show ?thesis by (simp add: example_sum_first example_sum_second)
qed

section \<open>Termination and totality\<close>

text \<open>
  The loop of \<^verbatim>\<open>_walk\<close> with a bound on the number of rounds: \<open>None\<close> when the bound is
  used up before the loop ends.
\<close>

fun walkFuel :: "nat \<Rightarrow> val \<Rightarrow> val option" where
  "walkFuel 0 v = None"
| "walkFuel (Suc n) (Cast i k x) =
     (if isIntegerCast k \<or> k = PtrToInt \<or> k = IntToPtr then walkFuel n x
      else Some (Cast i k x))"
| "walkFuel (Suc n) v = Some v"

text \<open>
  \<^verbatim>\<open>isThreadInvariant\<close>, \<^verbatim>\<open>isAffine\<close> and \<^verbatim>\<open>_isBinaryOperatorAffine\<close> with a bound on the
  nesting of calls. Every call takes one unit of fuel and hands the remaining fuel to
  each call it makes; the result is \<open>None\<close> when a call is reached with no fuel left.
\<close>

fun isThreadInvariantFuel :: "nat \<Rightarrow> store \<Rightarrow> val \<Rightarrow> (bool \<times> store) option" where
  "isThreadInvariantFuel 0 s value0 = None"
| "isThreadInvariantFuel (Suc n) s value0 =
    (let v = walk value0 in
     if v \<in> invariantValues s then Some (True, s)
     else if v \<in> affineValues s then Some (False, s)
     else if v \<in> variantValues s then Some (False, s)
     else if v \<in> threadIds s then Some (False, s)
     else if isConstant v then Some (setInvariant v s)
     else (case v of
         Cast i k x \<Rightarrow>
           (case isThreadInvariantFuel n s x of
              None \<Rightarrow> None
            | Some (r, s1) \<Rightarrow> Some (if r then setInvariant v s1 else (False, s1)))
       | Load i p \<Rightarrow>
           (case isThreadInvariantFuel n s p of
              None \<Rightarrow> None
            | Some (r, s1) \<Rightarrow> Some (if r then setInvariant v s1 else (False, s1)))
       | UnaryOther i x \<Rightarrow> Some (False, s)
       | Binary i opc a b \<Rightarrow>
           (case isThreadInvariantFuel n s a of
              None \<Rightarrow> None
            | Some (operand0, s1) \<Rightarrow>
                (case isThreadInvariantFuel n s1 b of
                   None \<Rightarrow> None
                 | Some (operand1, s2) \<Rightarrow>
                     Some (if operand0 \<and> operand1
                           then setInvariant b (snd (setInvariant a s2))
                           else (False, s2))))
       | _ \<Rightarrow> Some (False, s)))"

fun isAffineFuel :: "nat \<Rightarrow> store \<Rightarrow> val \<Rightarrow> (bool \<times> store) option"
  and isBinaryOperatorAffineFuel ::
    "nat \<Rightarrow> store \<Rightarrow> nat \<Rightarrow> opcode \<Rightarrow> val \<Rightarrow> val \<Rightarrow> (bool \<times> store) option"
where
  "isAffineFuel 0 s value0 = None"
| "isAffineFuel (Suc n) s value0 =
    (let v = walk value0 in
     if v \<in> invariantValues s then Some (True, s)
     else if v \<in> affineValues s then Some (True, s)
     else if v \<in> variantValues s then Some (False, s)
     else (case v of
         Binary i opc a b \<Rightarrow> isBinaryOperatorAffineFuel n s i opc a b
       | _ \<Rightarrow> Some (False, s)))"
| "isBinaryOperatorAffineFuel 0 s i opc a b = None"
| "isBinaryOperatorAffineFuel (Suc n) s i opc a b =
    (if matchesIndexScaling s opc a b then Some (setAffine (Binary i opc a b) s)
     else if opc = Add then
       (case isAffineFuel n s a of
          None \<Rightarrow> None
        | Some (r0, s1) \<Rightarrow>
            (case (if r0 then isThreadInvariantFuel n s1 b else Some (False, s1)) of
               None \<Rightarrow> None
             | Some (r1, s2) \<Rightarrow>
                 if r1 then Some (setAffine (Binary i opc a b) s2)
                 else
                   (case isAffineFuel n s2 b of
                      None \<Rightarrow> None
                    | Some (r2, s3) \<Rightarrow>
                        (case (if r2 then isThreadInvariantFuel n s3 a else Some (False, s3)) of
                           None \<Rightarrow> None
                         | Some (r3, s4) \<Rightarrow>
                             if r3 then Some (setAffine (Binary i opc a b) s4)
                             else Some (False, s4)))))
     else Some (False, s))"

lemma walkFuel_agrees: "depth v < n \<Longrightarrow> walkFuel n v = Some (walk v)"
proof (induction n v rule: walkFuel.induct)
qed auto

lemma isThreadInvariantFuel_agrees:
  "depth v < n \<Longrightarrow> isThreadInvariantFuel n s v = Some (isThreadInvariant s v)"
proof (induction n arbitrary: s v)
  case 0
  then show ?case by simp
next
  case (Suc n)
  have ih: "isThreadInvariantFuel n s' x = Some (isThreadInvariant s' x)"
    if "depth x < depth v" for s' x
    using Suc.IH [of x s'] Suc.prems that by simp
  show ?case
  proof (cases "walk v")
    case (Cast i k x)
    then show ?thesis
      using ih [of x] depth_walk_eq(1) [of i k x v]
      by (subst isThreadInvariant.simps) (simp add: Let_def split: prod.splits)
  next
    case (Load i p)
    then show ?thesis
      using ih [of p] depth_walk_eq(2) [of i p v]
      by (subst isThreadInvariant.simps) (simp add: Let_def split: prod.splits)
  next
    case (Binary i opc a b)
    then show ?thesis
      using ih [of a] ih [of b] depth_walk_eq(3) [of i opc a b v]
      by (subst isThreadInvariant.simps) (simp add: Let_def split: prod.splits)
  qed (subst isThreadInvariant.simps, simp add: Let_def)+
qed

lemma isAffineFuel_agrees_aux:
  "(\<forall>s v. 2 * depth v < n \<longrightarrow> isAffineFuel n s v = Some (isAffine s v)) \<and>
   (\<forall>s i opc a b. 2 * max (depth a) (depth b) + 1 < n \<longrightarrow>
      isBinaryOperatorAffineFuel n s i opc a b = Some (isBinaryOperatorAffine s i opc a b))"
proof (induction n)
  case 0
  then show ?case by simp
next
  case (Suc n)
  have affine: "isAffineFuel (Suc n) s v = Some (isAffine s v)" if "2 * depth v < Suc n" for s v
  proof (cases "walk v")
    case (Binary i opc a b)
    have "2 * max (depth a) (depth b) + 1 < n"
      using that depth_walk_eq(3) [of i opc a b v] Binary by auto
    then have "isBinaryOperatorAffineFuel n s i opc a b
        = Some (isBinaryOperatorAffine s i opc a b)"
      using Suc by blast
    then show ?thesis
      using Binary by (subst isAffine.simps) (simp add: Let_def)
  qed (subst isAffine.simps, simp add: Let_def)+
  have matcher: "isBinaryOperatorAffineFuel (Suc n) s i opc a b
      = Some (isBinaryOperatorAffine s i opc a b)"
    if "2 * max (depth a) (depth b) + 1 < Suc n" for s i opc a b
  proof -
    have da: "2 * depth a < n" and db: "2 * depth b < n" using that by auto
    have a: "isAffineFuel n s' a = Some (isAffine s' a)"
      and b: "isAffineFuel n s' b = Some (isAffine s' b)" for s'
      using Suc da db by blast+
    have ta: "isThreadInvariantFuel n s' a = Some (isThreadInvariant s' a)"
      and tb: "isThreadInvariantFuel n s' b = Some (isThreadInvariant s' b)" for s'
      using da db by (simp_all add: isThreadInvariantFuel_agrees)
    show ?thesis
      by (subst isBinaryOperatorAffine.simps) (simp add: a b ta tb split: prod.splits)
  qed
  show ?case using affine matcher by blast
qed

lemma isAffineFuel_agrees:
  "2 * depth v < n \<Longrightarrow> isAffineFuel n s v = Some (isAffine s v)"
  using isAffineFuel_agrees_aux by blast

lemma isBinaryOperatorAffineFuel_agrees:
  "2 * max (depth a) (depth b) + 1 < n \<Longrightarrow>
   isBinaryOperatorAffineFuel n s i opc a b = Some (isBinaryOperatorAffine s i opc a b)"
  using isAffineFuel_agrees_aux by blast

lemma isThreadInvariantFuel_unrecognised:
  "unclassified s (walk v) \<Longrightarrow> unrecognised (walk v) \<Longrightarrow>
   isThreadInvariantFuel (Suc 0) s v = Some (False, s)"
  by (cases "walk v") (simp_all add: unclassified_def)

lemma isAffineFuel_nonbinary:
  "uncached s (walk v) \<Longrightarrow> \<not> isBinaryOperator (walk v) \<Longrightarrow>
   isAffineFuel (Suc 0) s v = Some (False, s)"
  by (cases "walk v") (simp_all add: uncached_def)

text \<open>
  C9. Values are finite terms, that is, nodes of an acyclic graph. Canonicalisation
  strictly decreases the depth whenever it unwraps a cast, and its loop is finished
  after at most \<open>depth v + 1\<close> rounds. Both predicates return: each call of the
  fuel-indexed evaluators uses one unit of fuel and passes the rest to the calls it
  makes, and they return the result of the query whenever the fuel exceeds the depth
  of the value for \<open>isThreadInvariant\<close>, and twice the depth for \<open>isAffine\<close>, which
  passes through its matcher once per level of the graph. On an unclassified node of a
  kind that no rule recognises one unit of fuel is enough: the predicates answer false
  without a further call and leave the store as it is.
\<close>

theorem queries_total:
  "(depth v < n \<longrightarrow> walkFuel n v = Some (walk v)) \<and>
   depth (walk v) \<le> depth v \<and>
   (walk v \<noteq> v \<longrightarrow> depth (walk v) < depth v) \<and>
   walk (walk v) = walk v \<and>
   (depth v < n \<longrightarrow> isThreadInvariantFuel n s v = Some (isThreadInvariant s v)) \<and>
   (2 * depth v < n \<longrightarrow> isAffineFuel n s v = Some (isAffine s v)) \<and>
   (unclassified s (walk v) \<and> unrecognised (walk v) \<longrightarrow>
      isThreadInvariantFuel (Suc 0) s v = Some (False, s)) \<and>
   (uncached s (walk v) \<and> \<not> isBinaryOperator (walk v) \<longrightarrow>
      isAffineFuel (Suc 0) s v = Some (False, s))"
  using walkFuel_agrees [of v n] depth_walk [of v] walk_decreases [of v] walk_idem [of v]
    isThreadInvariantFuel_agrees [of v n s] isAffineFuel_agrees [of v n s]
    isThreadInvariantFuel_unrecognised [of s v] isAffineFuel_nonbinary [of s v]
  by blast

text \<open>
  For \<open>exampleNested\<close>, of depth 3, the bound is reached: \<open>isThreadInvariant\<close> returns
  with fuel 4 and not with fuel 3. For \<open>exampleSum\<close>, of depth 4, \<open>isAffine\<close> returns with
  fuel 9.
\<close>

theorem queries_total_witness:
  "walkFuel 3 (Cast 1 IntegerCast (Cast 2 PtrToInt (Other 3))) = Some (Other 3) \<and>
   depth (walk (Cast 1 IntegerCast (Cast 2 PtrToInt (Other 3))))
     < depth (Cast 1 IntegerCast (Cast 2 PtrToInt (Other 3))) \<and>
   isThreadInvariantFuel 4 exampleStore exampleNested
     = Some (isThreadInvariant exampleStore exampleNested) \<and>
   isThreadInvariantFuel 3 exampleStore exampleNested = None \<and>
   isAffineFuel 9 exampleStore exampleSum = Some (False, storeAfterSum) \<and>
   isThreadInvariantFuel (Suc 0) exampleStore (Cast 1 IntegerCast (Cast 2 PtrToInt (Other 3)))
     = Some (False, exampleStore) \<and>
   isAffineFuel (Suc 0) exampleStore (Cast 1 IntegerCast (Cast 2 PtrToInt (Other 3)))
     = Some (False, exampleStore)"
proof -
  let ?v = "Cast 1 IntegerCast (Cast 2 PtrToInt (Other 3))"
  have w: "walk ?v = Other 3" "depth ?v < 3" "walk ?v \<noteq> ?v" by simp_all
  have u: "unclassified exampleStore (walk ?v) \<and> unrecognised (walk ?v)"
    "uncached exampleStore (walk ?v) \<and> \<not> isBinaryOperator (walk ?v)"
    by (simp_all add: unclassified_def uncached_def exampleStore_def tidX_def blockDim_def)
  have d: "depth exampleNested < 4" "2 * depth exampleSum < 9"
    by (simp_all add: exampleNested_def exampleSum_def exampleInner_def exampleTail_def
        blockDim_def tidY_def)
  have short: "isThreadInvariantFuel 3 exampleStore exampleNested = None"
    by (simp add: eval_nat_numeral Let_def exampleNested_def exampleStore_def blockDim_def
        tidX_def)
  have "walkFuel 3 ?v = Some (Other 3)" "depth (walk ?v) < depth ?v"
    "isThreadInvariantFuel (Suc 0) exampleStore ?v = Some (False, exampleStore)"
    "isAffineFuel (Suc 0) exampleStore ?v = Some (False, exampleStore)"
    using queries_total [of ?v 3 exampleStore] w u by simp_all
  moreover have "isThreadInvariantFuel 4 exampleStore exampleNested
     = Some (isThreadInvariant exampleStore exampleNested)"
    using queries_total [of exampleNested 4 exampleStore] d by blast
  moreover have "isAffineFuel 9 exampleStore exampleSum = Some (False, storeAfterSum)"
    using queries_total [of exampleSum 9 exampleStore] d example_sum_first by simp
  ultimately show ?thesis using short by blast
qed

section \<open>Disjointness and growth in reachable stores\<close>










text \<open>Over a sequence of queries the store grows in the sense of \<open>grows\<close>.\<close>

lemma answer_grows: "grows s (snd (answer s q))"
  by (cases q) (simp_all add: isTI_grows_store isAff_grows_store)

lemma run_grows: "grows s (run s qs)"
proof (induction qs arbitrary: s)
  case Nil
  show ?case by simp
next
  case (Cons q qs)
  show ?case using grows_trans [OF answer_grows [of s q] Cons [of "snd (answer s q)"]] by simp
qed

lemma isTI_false_invariantIn: "\<not> fst (isThreadInvariant s v) \<Longrightarrow> \<not> invariantIn s v"
  by (simp add: isTI_answer)






text \<open>
  Three configurations on which the sets overlap. In the first the table tags the x
  component of the thread index as constant across threads. In the second the x
  component is an integer cast of the seeded invariant argument, and in the third it is
  an addition of that argument and a constant.
\<close>

definition exampleVarianceMapX :: "bool list" where
  "exampleVarianceMapX = [False, True, True, False, False]"



lemma example_construction_tagged:
  "AffineInstructionSet exampleInstances exampleVarianceMapX exampleFunction exampleArguments
     = Some (exampleStore\<lparr>invariantValues := {GlobalVariable 0, blockDim, tidX}\<rparr>)"
  by (simp add: AffineInstructionSet_def exampleInstances_def exampleVarianceMapX_def
      exampleFunction_def exampleArguments_def exampleStore_def emptyStore_def
      setInvariant_def insert_commute)




section \<open>The index-scaling idiom in reachable stores\<close>

lemma matches_mul_left:
  assumes "threadIds s = {t}" and "walk t = t"
  shows "matchesIndexScaling s Mul (ConstantInt w n) t \<longleftrightarrow> n = 4"
proof (cases "ConstantInt w n = t")
  case True
  have "walk (ConstantInt w n) \<in> threadIds s" using assms True by simp
  then have "constantExprIndex s (ConstantInt w n) t = 1"
    by (simp only: constantExprIndex_def if_True)
  then show ?thesis using True [symmetric] by (simp add: matchesIndexScaling_def getOperand_def)
next
  case False
  then have "constantExprIndex s (ConstantInt w n) t = 0"
    using assms by (simp add: constantExprIndex_def)
  then show ?thesis by (simp add: matchesIndexScaling_def getOperand_def)
qed

lemma matches_shl_left:
  assumes "threadIds s = {t}" and "walk t = t" and "ConstantInt w n \<noteq> t"
  shows "\<not> matchesIndexScaling s Shl (ConstantInt w n) t"
proof -
  have "constantExprIndex s (ConstantInt w n) t = 0"
    using assms by (simp add: constantExprIndex_def)
  then show ?thesis by (simp add: matchesIndexScaling_def getOperand_def)
qed

text \<open>
  A binary node that has a recorded thread index among its operands is not invariant,
  as long as that thread index and the node itself are not in the Invariant set.
\<close>

lemma invariantIn_index_operand:
  assumes "t \<in> threadIds s" and "walk t = t" and "t \<notin> invariantValues s"
    and "a = t \<or> b = t" and "Binary i opc a b \<notin> invariantValues s"
  shows "\<not> invariantIn s (Binary i opc a b)"
proof (cases "unclassified s (Binary i opc a b)")
  case True
  have "\<not> invariantIn s t" using assms(1,2,3) by (simp add: invariantIn_memo_other)
  then show ?thesis
    using assms(4) invariantIn_binary [of s "Binary i opc a b" i opc a b] True by auto
next
  case False
  then show ?thesis using assms(5) by (simp add: invariantIn_memo_other unclassified_def)
qed

lemma neverAffine_unmatched:
  assumes "uncached s (Binary i opc a b)" and "\<not> matchesIndexScaling s opc a b"
    and "opc \<noteq> Add" and "\<not> invariantIn s (Binary i opc a b)"
  shows "neverAffine s (Binary i opc a b)"
  using assms nA_notAdd [of s "Binary i opc a b" i opc a b] by simp

lemma run_neverAffine: "neverAffine s u \<Longrightarrow> neverAffine (run s qs) u"
proof (induction qs arbitrary: s)
  case Nil
  then show ?case by simp
next
  case (Cons q qs)
  have "neverAffine (snd (answer s q)) u"
    using Cons(2) by (cases q) (simp_all add: nA_isTI isAff_neverAffine_preserved)
  then show ?case using Cons(1) by simp
qed

text \<open>
  A node with the thread index as an operand that the matcher does not accept and that
  is not an addition is answered false in every store reached from a store in which
  neither the node nor the thread index is cached.
\<close>

lemma isAff_unmatched_false:
  assumes "threadIds s0 = {t}" and "walk t = t" and "t \<notin> invariantValues s0"
    and "affineValues s0 = {}" and "variantValues s0 = {}"
    and "a = t \<or> b = t" and "Binary i opc a b \<notin> invariantValues s0"
    and "\<not> matchesIndexScaling s0 opc a b" and "opc \<noteq> Add"
  shows "isAffine (run s0 qs) (Binary i opc a b) = (False, run s0 qs)"
proof -
  let ?q = "Binary i opc a b"
  let ?s = "run s0 qs"
  have "uncached s0 ?q" using assms(4,5,7) by (simp add: uncached_def)
  moreover have "\<not> invariantIn s0 ?q"
    using invariantIn_index_operand [of t s0 a b i opc] assms(1,2,3,6,7) by simp
  ultimately have "neverAffine s0 ?q" using assms(8,9) by (simp add: neverAffine_unmatched)
  then have n: "neverAffine ?s ?q" by (rule run_neverAffine)
  have fr: "variantValues ?s = {}" "threadIds ?s = threadIds s0"
    using run_frame [of s0 qs] assms(5) by simp_all
  have "uncached ?s ?q" using nA_memo [of ?q ?s] n fr(1) by (auto simp: uncached_def)
  moreover have "\<not> matchesIndexScaling ?s opc a b"
    using assms(8) matchesIndexScaling_threadIds [OF fr(2)] by simp
  ultimately show ?thesis using assms(9) by (rule isAff_binary_no_scaling)
qed

lemma run_index_operand_not_invariant:
  assumes "t \<in> threadIds s0" and "walk t = t" and "t \<notin> invariantValues s0"
    and "a = t \<or> b = t" and "Binary i opc a b \<notin> invariantValues s0"
  shows "Binary i opc a b \<notin> invariantValues (run s0 qs)"
  using grows_invariant_new [OF run_grows [of s0 qs] invariantIn_index_operand [OF assms]]
  by simp

text \<open>
  C2 (as the code has it). Let the constructor have recorded the thread index \<open>t\<close>
  (\<^verbatim>\<open>threadIdUses\<close> is 1), and let \<open>t\<close> be canonical, that is, not a cast that \<^verbatim>\<open>_walk\<close>
  unwraps. Then in every store reached from construction by queries \<open>isAffine\<close> answers true
  on \<open>t << 2\<close>, on \<open>t * 4\<close> and on \<open>4 * t\<close>; on a cache miss the node is inserted into the
  Affine set and nothing else changes. If moreover the constructor has seeded neither \<open>t\<close>
  nor the queried node as invariant, the node is in the Affine set after such a query,
  and \<open>isAffine\<close> answers false, leaving the store as it is, on \<open>t << n\<close> with \<open>n \<noteq> 2\<close>, on
  \<open>t * m\<close> and \<open>m * t\<close> with \<open>m \<noteq> 4\<close>, and on \<open>n << t\<close> unless \<open>t\<close> is that very constant
  \<open>n\<close>.
\<close>

theorem index_scaling_idiom:
  assumes "AffineInstructionSet instances varianceMap f ta = Some s0"
    and "threadIdUses ta = 1"
    and "walk (argument ta threadId_x) = argument ta threadId_x"
    and "t = argument ta threadId_x" and "s = run s0 qs"
  shows "fst (isAffine s (Binary i Shl t (ConstantInt w 2))) \<and>
         fst (isAffine s (Binary i Mul t (ConstantInt w 4))) \<and>
         fst (isAffine s (Binary i Mul (ConstantInt w 4) t)) \<and>
         ((p = Binary i Shl t (ConstantInt w 2) \<or> p = Binary i Mul t (ConstantInt w 4) \<or>
           p = Binary i Mul (ConstantInt w 4) t) \<and> uncached s p \<longrightarrow>
            isAffine s p = (True, s\<lparr>affineValues := insert p (affineValues s)\<rparr>)) \<and>
         ((p = Binary i Shl t (ConstantInt w 2) \<or> p = Binary i Mul t (ConstantInt w 4) \<or>
           p = Binary i Mul (ConstantInt w 4) t) \<and>
          t \<notin> invariantValues s0 \<and> p \<notin> invariantValues s0 \<longrightarrow>
            p \<in> affineValues (snd (isAffine s p))) \<and>
         ((q = Binary i Shl t (ConstantInt w n) \<and> n \<noteq> 2 \<or>
           q = Binary i Mul t (ConstantInt w m) \<and> m \<noteq> 4 \<or>
           q = Binary i Mul (ConstantInt w m) t \<and> m \<noteq> 4 \<or>
           q = Binary i Shl (ConstantInt w n) t \<and> ConstantInt w n \<noteq> t) \<and>
          t \<notin> invariantValues s0 \<and> q \<notin> invariantValues s0 \<longrightarrow>
            isAffine s q = (False, s))"
proof -
  note cs = construct_sets [OF assms(1)]
  have t0: "threadIds s0 = {t}" using cs(3) assms(2,4) by simp
  have fr: "threadIds s = {t}" "variantValues s = {}"
    using run_frame [of s0 qs] t0 cs(2) assms(5) by simp_all
  have wt: "walk t = t" using assms(3,4) by simp
  note m = matches_shl_right [OF fr(1) wt] matches_mul_right [OF fr(1) wt]
    matches_mul_left [OF fr(1) wt]
  note m0 = matches_shl_right [OF t0 wt] matches_mul_right [OF t0 wt]
    matches_mul_left [OF t0 wt] matches_shl_left [OF t0 wt]
  have pos: "fst (isAffine s (Binary i Shl t (ConstantInt w 2)))"
    "fst (isAffine s (Binary i Mul t (ConstantInt w 4)))"
    "fst (isAffine s (Binary i Mul (ConstantInt w 4) t))"
    using isAff_scaling_true [OF fr(2)] m by simp_all
  have ins: "isAffine s p = (True, s\<lparr>affineValues := insert p (affineValues s)\<rparr>)"
    if "p = Binary i Shl t (ConstantInt w 2) \<or> p = Binary i Mul t (ConstantInt w 4) \<or>
        p = Binary i Mul (ConstantInt w 4) t" "uncached s p"
    using that isAff_binary_scaling m by auto
  have aff: "p \<in> affineValues (snd (isAffine s p))"
    if p: "p = Binary i Shl t (ConstantInt w 2) \<or> p = Binary i Mul t (ConstantInt w 4) \<or>
        p = Binary i Mul (ConstantInt w 4) t"
      and n: "t \<notin> invariantValues s0" "p \<notin> invariantValues s0"
  proof -
    have "p \<notin> invariantValues (run s0 qs)"
      using p n run_index_operand_not_invariant [of t s0 _ _ i _ qs] t0 wt by auto
    then have "uncached s p \<or> p \<in> affineValues s"
      using fr(2) assms(5) by (simp add: uncached_def)
    then show ?thesis using ins [OF p] isAff_grows(2) [of s p] by auto
  qed
  have neg: "isAffine s q = (False, s)"
    if q: "q = Binary i Shl t (ConstantInt w n) \<and> n \<noteq> 2 \<or>
           q = Binary i Mul t (ConstantInt w m) \<and> m \<noteq> 4 \<or>
           q = Binary i Mul (ConstantInt w m) t \<and> m \<noteq> 4 \<or>
           q = Binary i Shl (ConstantInt w n) t \<and> ConstantInt w n \<noteq> t"
      and n: "t \<notin> invariantValues s0" "q \<notin> invariantValues s0"
    using q n m0 isAff_unmatched_false [OF t0 wt n(1) cs(1,2), of _ _ i _ qs] assms(5)
    by auto
  show ?thesis using pos ins aff neg by blast
qed

theorem index_scaling_idiom_witness:
  "isAffine (run exampleStore [QueryInvariant exampleOffset]) (Binary 5 Shl tidX (ConstantInt 32 2))
     = (True, (run exampleStore [QueryInvariant exampleOffset])
          \<lparr>affineValues := {Binary 5 Shl tidX (ConstantInt 32 2)}\<rparr>) \<and>
   fst (isAffine (run exampleStore [QueryInvariant exampleOffset])
          (Binary 5 Mul tidX (ConstantInt 32 4))) \<and>
   fst (isAffine (run exampleStore [QueryInvariant exampleOffset])
          (Binary 5 Mul (ConstantInt 32 4) tidX)) \<and>
   Binary 5 Mul (ConstantInt 32 4) tidX
     \<in> affineValues (snd (isAffine (run exampleStore [QueryInvariant exampleOffset])
          (Binary 5 Mul (ConstantInt 32 4) tidX))) \<and>
   isAffine (run exampleStore [QueryInvariant exampleOffset]) (Binary 5 Shl tidX (ConstantInt 32 3))
     = (False, run exampleStore [QueryInvariant exampleOffset]) \<and>
   isAffine (run exampleStore [QueryInvariant exampleOffset]) (Binary 5 Mul tidX (ConstantInt 32 8))
     = (False, run exampleStore [QueryInvariant exampleOffset]) \<and>
   isAffine (run exampleStore [QueryInvariant exampleOffset]) (Binary 5 Mul (ConstantInt 32 8) tidX)
     = (False, run exampleStore [QueryInvariant exampleOffset]) \<and>
   isAffine (run exampleStore [QueryInvariant exampleOffset]) (Binary 5 Shl (ConstantInt 32 2) tidX)
     = (False, run exampleStore [QueryInvariant exampleOffset])"
proof -
  let ?s = "run exampleStore [QueryInvariant exampleOffset]"
  have h: "threadIdUses exampleArguments = 1"
    "walk (argument exampleArguments threadId_x) = argument exampleArguments threadId_x"
    "tidX = argument exampleArguments threadId_x"
    by (simp_all add: exampleArguments_def tidX_def)
  have n: "tidX \<notin> invariantValues exampleStore"
    "Binary 5 opc a b \<notin> invariantValues exampleStore" for opc a b
    by (simp_all add: exampleStore_def tidX_def blockDim_def)
  have c: "ConstantInt 32 2 \<noteq> tidX" by (simp add: tidX_def)
  have s: "?s = exampleStore\<lparr>invariantValues := {GlobalVariable 0, blockDim, ConstantInt 32 16}\<rparr>"
    by (simp add: evaluation_rules Let_def exampleOffset_def exampleStore_def blockDim_def
        tidX_def insert_commute)
  have u: "uncached ?s (Binary 5 opc a b)" "affineValues ?s = {}" for opc a b
    unfolding s by (simp_all add: uncached_def exampleStore_def blockDim_def)
  note inst = index_scaling_idiom [OF example_construction h refl,
      where qs = "[QueryInvariant exampleOffset]" and i = 5 and w = 32]
  have "isAffine ?s (Binary 5 Shl tidX (ConstantInt 32 2))
     = (True, ?s\<lparr>affineValues := {Binary 5 Shl tidX (ConstantInt 32 2)}\<rparr>)"
    using inst [where p = "Binary 5 Shl tidX (ConstantInt 32 2)"] u by simp
  moreover have "fst (isAffine ?s (Binary 5 Mul tidX (ConstantInt 32 4)))"
    "fst (isAffine ?s (Binary 5 Mul (ConstantInt 32 4) tidX))"
    using inst by blast+
  moreover have "Binary 5 Mul (ConstantInt 32 4) tidX
     \<in> affineValues (snd (isAffine ?s (Binary 5 Mul (ConstantInt 32 4) tidX)))"
    using inst [where p = "Binary 5 Mul (ConstantInt 32 4) tidX"] n by blast
  moreover have "isAffine ?s (Binary 5 Shl tidX (ConstantInt 32 3)) = (False, ?s)"
    using inst [where q = "Binary 5 Shl tidX (ConstantInt 32 3)" and n = 3] n by simp
  moreover have "isAffine ?s (Binary 5 Mul tidX (ConstantInt 32 8)) = (False, ?s)"
    using inst [where q = "Binary 5 Mul tidX (ConstantInt 32 8)" and m = 8] n by simp
  moreover have "isAffine ?s (Binary 5 Mul (ConstantInt 32 8) tidX) = (False, ?s)"
    using inst [where q = "Binary 5 Mul (ConstantInt 32 8) tidX" and m = 8] n by simp
  moreover have "isAffine ?s (Binary 5 Shl (ConstantInt 32 2) tidX) = (False, ?s)"
    using inst [where q = "Binary 5 Shl (ConstantInt 32 2) tidX" and n = 2] n c by simp
  ultimately show ?thesis by blast
qed

text \<open>
  Four configurations on which the claim as stated fails. In the first the x component
  of the thread index is an integer cast of the load; in the second the table tags the
  x component as constant across threads; in the third the special argument seeded as
  invariant is the node \<open>t << 3\<close> itself; in the fourth the x component is the constant 2.
\<close>

definition exampleArgumentsWide :: threadLocalArgument where
  "exampleArgumentsWide =
     exampleArguments\<lparr>argument :=
       (argument exampleArguments)(threadId_x := Cast 31 IntegerCast tidX)\<rparr>"

definition exampleArgumentsNode :: threadLocalArgument where
  "exampleArgumentsNode =
     exampleArguments\<lparr>argument :=
       (argument exampleArguments)(otherMember 0 := Binary 5 Shl tidX (ConstantInt 32 3))\<rparr>"

definition exampleArgumentsTwo :: threadLocalArgument where
  "exampleArgumentsTwo =
     exampleArguments\<lparr>argument :=
       (argument exampleArguments)(threadId_x := ConstantInt 32 2)\<rparr>"

lemma example_construction_wide:
  "AffineInstructionSet exampleInstances exampleVarianceMap exampleFunction exampleArgumentsWide
     = Some (exampleStore\<lparr>threadIds := {Cast 31 IntegerCast tidX}\<rparr>)"
  by (simp add: AffineInstructionSet_def exampleInstances_def exampleVarianceMap_def
      exampleFunction_def exampleArguments_def exampleArgumentsWide_def exampleStore_def
      emptyStore_def setInvariant_def)

lemma example_construction_node:
  "AffineInstructionSet exampleInstances exampleVarianceMap exampleFunction exampleArgumentsNode
     = Some (exampleStore\<lparr>invariantValues :=
               {GlobalVariable 0, Binary 5 Shl tidX (ConstantInt 32 3)}\<rparr>)"
  by (simp add: AffineInstructionSet_def exampleInstances_def exampleVarianceMap_def
      exampleFunction_def exampleArguments_def exampleArgumentsNode_def exampleStore_def
      emptyStore_def setInvariant_def)

lemma example_construction_two:
  "AffineInstructionSet exampleInstances exampleVarianceMap exampleFunction exampleArgumentsTwo
     = Some (exampleStore\<lparr>threadIds := {ConstantInt 32 2}\<rparr>)"
  by (simp add: AffineInstructionSet_def exampleInstances_def exampleVarianceMap_def
      exampleFunction_def exampleArguments_def exampleArgumentsTwo_def exampleStore_def
      emptyStore_def setInvariant_def)

text \<open>
  The claim as stated fails. With a cast as the recorded thread index \<open>t\<close>, the queries on
  \<open>t << 2\<close>, \<open>t * 4\<close> and \<open>4 * t\<close> answer false: the matcher looks up the canonicalised
  operands and never finds the cast. With the thread index seeded as invariant, a query
  \<open>isThreadInvariant ((t << 3) * 1)\<close> caches \<open>t << 3\<close> as invariant and \<open>isAffine (t << 3)\<close>
  answers true. With \<open>t << 3\<close> seeded as invariant \<open>isAffine (t << 3)\<close> answers true at once.
  With the constant 2 as thread index \<open>isAffine (2 << t)\<close> answers true.
\<close>

theorem index_scaling_idiom_counterexample:
  "AffineInstructionSet exampleInstances exampleVarianceMap exampleFunction exampleArgumentsWide
     = Some (exampleStore\<lparr>threadIds := {Cast 31 IntegerCast tidX}\<rparr>) \<and>
   threadIdUses exampleArgumentsWide = 1 \<and>
   fst (isAffine (exampleStore\<lparr>threadIds := {Cast 31 IntegerCast tidX}\<rparr>)
         (Binary 5 Shl (Cast 31 IntegerCast tidX) (ConstantInt 32 2))) = False \<and>
   fst (isAffine (exampleStore\<lparr>threadIds := {Cast 31 IntegerCast tidX}\<rparr>)
         (Binary 5 Mul (Cast 31 IntegerCast tidX) (ConstantInt 32 4))) = False \<and>
   fst (isAffine (exampleStore\<lparr>threadIds := {Cast 31 IntegerCast tidX}\<rparr>)
         (Binary 5 Mul (ConstantInt 32 4) (Cast 31 IntegerCast tidX))) = False \<and>
   AffineInstructionSet exampleInstances exampleVarianceMapX exampleFunction exampleArguments
     = Some (exampleStore\<lparr>invariantValues := {GlobalVariable 0, blockDim, tidX}\<rparr>) \<and>
   fst (isAffine
         (run (exampleStore\<lparr>invariantValues := {GlobalVariable 0, blockDim, tidX}\<rparr>)
            [QueryInvariant (Binary 60 Mul (Binary 5 Shl tidX (ConstantInt 32 3))
                                           (ConstantInt 32 1))])
         (Binary 5 Shl tidX (ConstantInt 32 3))) \<and>
   AffineInstructionSet exampleInstances exampleVarianceMap exampleFunction exampleArgumentsNode
     = Some (exampleStore\<lparr>invariantValues :=
               {GlobalVariable 0, Binary 5 Shl tidX (ConstantInt 32 3)}\<rparr>) \<and>
   fst (isAffine
         (exampleStore\<lparr>invariantValues :=
            {GlobalVariable 0, Binary 5 Shl tidX (ConstantInt 32 3)}\<rparr>)
         (Binary 5 Shl tidX (ConstantInt 32 3))) \<and>
   AffineInstructionSet exampleInstances exampleVarianceMap exampleFunction exampleArgumentsTwo
     = Some (exampleStore\<lparr>threadIds := {ConstantInt 32 2}\<rparr>) \<and>
   fst (isAffine (exampleStore\<lparr>threadIds := {ConstantInt 32 2}\<rparr>)
         (Binary 5 Shl (ConstantInt 32 2) (ConstantInt 32 2)))"
proof -
  have "threadIdUses exampleArgumentsWide = 1"
    by (simp add: exampleArgumentsWide_def exampleArguments_def)
  moreover have
    "fst (isAffine (exampleStore\<lparr>threadIds := {Cast 31 IntegerCast tidX}\<rparr>)
         (Binary 5 Shl (Cast 31 IntegerCast tidX) (ConstantInt 32 2))) = False"
    "fst (isAffine (exampleStore\<lparr>threadIds := {Cast 31 IntegerCast tidX}\<rparr>)
         (Binary 5 Mul (Cast 31 IntegerCast tidX) (ConstantInt 32 4))) = False"
    "fst (isAffine (exampleStore\<lparr>threadIds := {Cast 31 IntegerCast tidX}\<rparr>)
         (Binary 5 Mul (ConstantInt 32 4) (Cast 31 IntegerCast tidX))) = False"
    by (simp_all add: evaluation_rules Let_def exampleStore_def blockDim_def tidX_def)
  moreover have "fst (isAffine
         (run (exampleStore\<lparr>invariantValues := {GlobalVariable 0, blockDim, tidX}\<rparr>)
            [QueryInvariant (Binary 60 Mul (Binary 5 Shl tidX (ConstantInt 32 3))
                                           (ConstantInt 32 1))])
         (Binary 5 Shl tidX (ConstantInt 32 3)))"
    by (simp add: evaluation_rules Let_def exampleStore_def blockDim_def tidX_def)
  moreover have "fst (isAffine
         (exampleStore\<lparr>invariantValues :=
            {GlobalVariable 0, Binary 5 Shl tidX (ConstantInt 32 3)}\<rparr>)
         (Binary 5 Shl tidX (ConstantInt 32 3)))"
    by (simp add: evaluation_rules Let_def exampleStore_def blockDim_def tidX_def)
  moreover have "fst (isAffine (exampleStore\<lparr>threadIds := {ConstantInt 32 2}\<rparr>)
         (Binary 5 Shl (ConstantInt 32 2) (ConstantInt 32 2)))"
    by (simp add: evaluation_rules Let_def exampleStore_def blockDim_def tidX_def)
  ultimately show ?thesis
    using example_construction_wide example_construction_tagged example_construction_node
      example_construction_two
    by blast
qed

end
